theory Spec2Isabelle
  imports Main "HOL-Library.Word" "HOL-Library.Signed_Division"
begin

unbundle bit_operations_syntax

section \<open>Bytes, buffers and outcomes\<close>

text \<open>
  The codec of \<^verbatim>\<open>plugin/standard-message-codec.go\<close> works on a \<^verbatim>\<open>bytes.Buffer\<close>.
  A buffer that is written to is modelled by its content, a buffer that is read from by
  its unread part. Writes to a \<^verbatim>\<open>bytes.Buffer\<close> always return a nil error, so the
  write primitives return the new content; every other error return and every run-time
  panic of the source is a constructor of \<open>result\<close>.
\<close>

type_synonym byte = "8 word"
type_synonym buffer = "byte list"

text \<open>
  The package variable \<^verbatim>\<open>endian\<close> is declared outside the two source files at hand;
  it is a parameter of every function that uses it.
\<close>

datatype ByteOrder = LittleEndian | BigEndian

text \<open>
  Error values: \<^verbatim>\<open>io.EOF\<close>, \<^verbatim>\<open>io.ErrUnexpectedEOF\<close>, \<^verbatim>\<open>errors.New(msg)\<close>,
  \<^verbatim>\<open>errors.Wrap(err, msg)\<close>, and the package's \<^verbatim>\<open>MessageTypeError\<close>.

  Modelled from the spec: the struct \<^verbatim>\<open>MessageTypeError\<close> is declared in another file of
  the package; the spec calls it the type error that wraps the offending value's
  descriptive category, and the source builds it from one message string.
\<close>

datatype error =
    EOF
  | ErrUnexpectedEOF
  | New string
  | Wrap error string
  | MessageTypeError string

text \<open>\<^verbatim>\<open>errors.Cause\<close>: the error at the bottom of a chain of wraps.\<close>

fun Cause :: "error \<Rightarrow> error" where
  "Cause (Wrap err msg) = Cause err"
| "Cause err = err"

datatype 'a result = Ok 'a | Err error | Panic string

fun andThen :: "'a result \<Rightarrow> ('a \<Rightarrow> 'b result) \<Rightarrow> 'b result" where
  "andThen (Ok x) f = f x"
| "andThen (Err err) f = Err err"
| "andThen (Panic msg) f = Panic msg"

section \<open>Fixed-width integers in a byte order\<close>

text \<open>
  \<^verbatim>\<open>binary.Write(w, endian, value)\<close> and \<^verbatim>\<open>binary.Read(r, endian, &value)\<close> on a
  fixed-width integer: \<open>n\<close> bytes, least significant first for little endian, most
  significant first for big endian.
\<close>

fun le_bytes :: "nat \<Rightarrow> 'a::len word \<Rightarrow> byte list" where
  "le_bytes 0 w = []"
| "le_bytes (Suc n) w = ucast w # le_bytes n (drop_bit 8 w)"

fun le_word :: "byte list \<Rightarrow> 'a::len word" where
  "le_word [] = 0"
| "le_word (b # bs) = ucast b OR push_bit 8 (le_word bs)"

definition put_word :: "ByteOrder \<Rightarrow> nat \<Rightarrow> 'a::len word \<Rightarrow> byte list" where
  "put_word endian n w =
     (case endian of LittleEndian \<Rightarrow> le_bytes n w | BigEndian \<Rightarrow> rev (le_bytes n w))"

definition get_word :: "ByteOrder \<Rightarrow> byte list \<Rightarrow> 'a::len word" where
  "get_word endian bs =
     (case endian of LittleEndian \<Rightarrow> le_word bs | BigEndian \<Rightarrow> le_word (rev bs))"

text \<open>
  \<^verbatim>\<open>io.ReadFull\<close> on a \<^verbatim>\<open>bytes.Buffer\<close>, as \<^verbatim>\<open>binary.Read\<close> calls it: no byte
  wanted is no read at all, an empty buffer is \<^verbatim>\<open>io.EOF\<close>, a buffer that is too short
  is \<^verbatim>\<open>io.ErrUnexpectedEOF\<close>.
\<close>

definition ReadFull :: "nat \<Rightarrow> buffer \<Rightarrow> (byte list \<times> buffer) result" where
  "ReadFull n buf =
     (if n = 0 then Ok ([], buf)
      else if buf = [] then Err EOF
      else if length buf < n then Err ErrUnexpectedEOF
      else Ok (take n buf, drop n buf))"

text \<open>\<^verbatim>\<open>buf.ReadByte()\<close>\<close>

fun ReadByte :: "buffer \<Rightarrow> (byte \<times> buffer) result" where
  "ReadByte [] = Err EOF"
| "ReadByte (b # buf) = Ok (b, buf)"

text \<open>\<^verbatim>\<open>buf.Next(n)\<close>: at most \<open>n\<close> bytes; the slice expression panics for a negative \<open>n\<close>.\<close>

definition Next :: "int \<Rightarrow> buffer \<Rightarrow> (byte list \<times> buffer) result" where
  "Next n buf =
     (if n < 0 then Panic ''slice bounds out of range''
      else Ok (take (nat n) buf, drop (nat n) buf))"

definition writeInt16 :: "ByteOrder \<Rightarrow> buffer \<Rightarrow> 16 word \<Rightarrow> buffer" where
  "writeInt16 endian buf v = buf @ put_word endian 2 v"

definition writeInt32 :: "ByteOrder \<Rightarrow> buffer \<Rightarrow> 32 word \<Rightarrow> buffer" where
  "writeInt32 endian buf v = buf @ put_word endian 4 v"

definition writeInt64 :: "ByteOrder \<Rightarrow> buffer \<Rightarrow> 64 word \<Rightarrow> buffer" where
  "writeInt64 endian buf v = buf @ put_word endian 8 v"

text \<open>
  A \<^verbatim>\<open>float64\<close> is modelled by its IEEE-754 bit pattern (\<^verbatim>\<open>math.Float64bits\<close>), which
  is what \<^verbatim>\<open>binary.Write\<close> and \<^verbatim>\<open>binary.Read\<close> move.
\<close>

definition writeFloat64 :: "ByteOrder \<Rightarrow> buffer \<Rightarrow> 64 word \<Rightarrow> buffer" where
  "writeFloat64 endian buf v = buf @ put_word endian 8 v"

definition readInt16 :: "ByteOrder \<Rightarrow> buffer \<Rightarrow> (16 word \<times> buffer) result" where
  "readInt16 endian buf =
     andThen (ReadFull 2 buf) (\<lambda>(bs, buf1). Ok (get_word endian bs, buf1))"

definition readInt32 :: "ByteOrder \<Rightarrow> buffer \<Rightarrow> (32 word \<times> buffer) result" where
  "readInt32 endian buf =
     andThen (ReadFull 4 buf) (\<lambda>(bs, buf1). Ok (get_word endian bs, buf1))"

definition readInt64 :: "ByteOrder \<Rightarrow> buffer \<Rightarrow> (64 word \<times> buffer) result" where
  "readInt64 endian buf =
     andThen (ReadFull 8 buf) (\<lambda>(bs, buf1). Ok (get_word endian bs, buf1))"

definition readFloat64 :: "ByteOrder \<Rightarrow> buffer \<Rightarrow> (64 word \<times> buffer) result" where
  "readFloat64 endian buf =
     andThen (ReadFull 8 buf) (\<lambda>(bs, buf1). Ok (get_word endian bs, buf1))"

section \<open>The size codec\<close>

text \<open>
  \<^verbatim>\<open>writeSize\<close>: Go's \<^verbatim>\<open>int\<close> is an \<open>int\<close> here; the conversions \<^verbatim>\<open>byte(value)\<close>,
  \<^verbatim>\<open>int16(value)\<close> and \<^verbatim>\<open>int32(value)\<close> keep the low bits (\<open>of_int\<close>).
\<close>

definition writeSize :: "ByteOrder \<Rightarrow> buffer \<Rightarrow> int \<Rightarrow> buffer result" where
  "writeSize endian buf value =
     (if value < 0 then Err (New ''invalid size: negative'')
      else if value < 254 then Ok (buf @ [of_int value])
      else if value \<le> 0xffff then Ok (writeInt16 endian (buf @ [254]) (of_int value))
      else Ok (writeInt32 endian (buf @ [255]) (of_int value)))"

text \<open>
  \<^verbatim>\<open>readSize\<close>: \<^verbatim>\<open>int(b)\<close> of a byte is its unsigned value; \<^verbatim>\<open>int(v)\<close> of an
  \<^verbatim>\<open>int16\<close> or \<^verbatim>\<open>int32\<close> is its signed value (\<open>sint\<close>).
\<close>

definition readSize :: "ByteOrder \<Rightarrow> buffer \<Rightarrow> (int \<times> buffer) result" where
  "readSize endian buf =
     andThen (ReadByte buf) (\<lambda>(b, buf1).
       if b < 254 then Ok (uint b, buf1)
       else if b = 254 then
         andThen (readInt16 endian buf1) (\<lambda>(v, buf2). Ok (sint v, buf2))
       else
         andThen (readInt32 endian buf1) (\<lambda>(v, buf2). Ok (sint v, buf2)))"

section \<open>Values\<close>

text \<open>
  A message is an \<^verbatim>\<open>interface{}\<close>. The thirteen dynamic types the codec supports are
  the first thirteen constructors; \<open>VOther t\<close> is a value of any other dynamic type,
  \<open>t\<close> being what \<^verbatim>\<open>%T\<close> prints for it (\<open>''int16''\<close>, \<open>''func()''\<close>).
  A \<^verbatim>\<open>*big.Int\<close> is modelled by the integer it points to, a \<^verbatim>\<open>float64\<close> by its bit
  pattern, a \<^verbatim>\<open>string\<close> and a \<^verbatim>\<open>[]byte\<close> by their bytes, a slice by the list of its
  elements (a nil slice is the empty list; a nil \<^verbatim>\<open>*big.Int\<close> is left out). A
  \<^verbatim>\<open>map[interface{}]interface{}\<close> is the list of its pairs: for the encoder in the
  order in which \<^verbatim>\<open>range\<close> visits them (Go leaves that order open, so every order is
  a possible run), for the decoder in the order of insertion. Two such lists with the
  same pairs in another order are the same Go map.
\<close>

datatype Value =
    VNil
  | VBool bool
  | VInt32 "32 word"
  | VInt64 "64 word"
  | VBigInt int
  | VFloat64 "64 word"
  | VString "byte list"
  | VByteSlice "byte list"
  | VInt32Slice "32 word list"
  | VInt64Slice "64 word list"
  | VFloat64Slice "64 word list"
  | VList "Value list"
  | VMap "(Value \<times> Value) list"
  | VOther string

subsection \<open>The operations of \<^verbatim>\<open>math/big\<close> the codec calls\<close>

text \<open>
  \<^verbatim>\<open>x.Text(16)\<close>: a minus sign for a negative number, then the digits in base 16,
  lower case, no leading zero.
\<close>

definition hexDigit :: "nat \<Rightarrow> byte" where
  "hexDigit d = of_char (''0123456789abcdef'' ! d)"

fun hexNat :: "nat \<Rightarrow> byte list" where
  "hexNat n = (if n < 16 then [hexDigit n] else hexNat (n div 16) @ [hexDigit (n mod 16)])"

declare hexNat.simps [simp del]

definition Text16 :: "int \<Rightarrow> byte list" where
  "Text16 x = (if x < 0 then of_char CHR ''-'' # hexNat (nat (- x)) else hexNat (nat x))"

text \<open>
  \<^verbatim>\<open>new(big.Int).SetString(s, 16)\<close>: an optional sign, then one digit or more, each
  below 16, in either case, and nothing after them; \<open>None\<close> is \<^verbatim>\<open>ok == false\<close>.
\<close>

definition digitVal :: "byte \<Rightarrow> nat option" where
  "digitVal ch =
     (if of_char CHR ''0'' \<le> ch \<and> ch \<le> of_char CHR ''9'' then Some (unat ch - 48)
      else if of_char CHR ''a'' \<le> ch \<and> ch \<le> of_char CHR ''z'' then Some (unat ch - 97 + 10)
      else if of_char CHR ''A'' \<le> ch \<and> ch \<le> of_char CHR ''Z'' then Some (unat ch - 65 + 10)
      else None)"

fun scanDigits :: "nat \<Rightarrow> byte list \<Rightarrow> nat option" where
  "scanDigits acc [] = Some acc"
| "scanDigits acc (ch # s) =
     (case digitVal ch of
        None \<Rightarrow> None
      | Some d \<Rightarrow> if d < 16 then scanDigits (acc * 16 + d) s else None)"

definition SetString16 :: "byte list \<Rightarrow> int option" where
  "SetString16 s =
     (case s of
        [] \<Rightarrow> None
      | ch # s1 \<Rightarrow>
          let neg = (ch = of_char CHR ''-'');
              ds = (if ch = of_char CHR ''-'' \<or> ch = of_char CHR ''+'' then s1 else s)
          in if ds = [] then None
             else (case scanDigits 0 ds of
                     None \<Rightarrow> None
                   | Some n \<Rightarrow> Some (if neg then - int n else int n)))"

subsection \<open>Go maps with \<^verbatim>\<open>interface{}\<close> keys\<close>

text \<open>
  \<^verbatim>\<open>m[key] = value\<close> hashes the key: a key whose dynamic type is a slice or a map
  makes the run-time panic. Two keys are the same entry when \<^verbatim>\<open>==\<close> holds: the same
  dynamic type and equal values; for \<^verbatim>\<open>float64\<close> that is IEEE equality (a NaN equals
  nothing, the two zeros are equal); a \<^verbatim>\<open>*big.Int\<close> is a pointer, and every one the
  decoder makes is a new allocation, so it equals no key already in the map.
\<close>

definition isNaN :: "64 word \<Rightarrow> bool" where
  "isNaN w = (w AND 0x7FF0000000000000 = 0x7FF0000000000000 \<and> w AND 0x000FFFFFFFFFFFFF \<noteq> 0)"

definition float64Equal :: "64 word \<Rightarrow> 64 word \<Rightarrow> bool" where
  "float64Equal a b =
     (\<not> isNaN a \<and> \<not> isNaN b \<and>
      (a = b \<or> (a AND 0x7FFFFFFFFFFFFFFF = 0 \<and> b AND 0x7FFFFFFFFFFFFFFF = 0)))"

fun hashable :: "Value \<Rightarrow> bool" where
  "hashable (VByteSlice bs) = False"
| "hashable (VInt32Slice ws) = False"
| "hashable (VInt64Slice ws) = False"
| "hashable (VFloat64Slice ws) = False"
| "hashable (VList vs) = False"
| "hashable (VMap kvs) = False"
| "hashable v = True"

definition keyEqual :: "Value \<Rightarrow> Value \<Rightarrow> bool" where
  "keyEqual k k' =
     (case k of
        VNil \<Rightarrow> k' = VNil
      | VBool a \<Rightarrow> k' = VBool a
      | VInt32 a \<Rightarrow> k' = VInt32 a
      | VInt64 a \<Rightarrow> k' = VInt64 a
      | VFloat64 a \<Rightarrow> (case k' of VFloat64 b \<Rightarrow> float64Equal a b | _ \<Rightarrow> False)
      | VString a \<Rightarrow> k' = VString a
      | _ \<Rightarrow> False)"

definition mapassign ::
  "(Value \<times> Value) list \<Rightarrow> Value \<Rightarrow> Value \<Rightarrow> (Value \<times> Value) list result" where
  "mapassign m key value =
     (if hashable key
      then Ok (filter (\<lambda>(k, v). \<not> keyEqual k key) m @ [(key, value)])
      else Panic ''runtime error: hash of unhashable type'')"


section \<open>Encoding\<close>

definition writeBytes :: "ByteOrder \<Rightarrow> buffer \<Rightarrow> byte list \<Rightarrow> buffer result" where
  "writeBytes endian buf value =
     andThen (writeSize endian buf (int (length value))) (\<lambda>buf1. Ok (buf1 @ value))"

definition writeString :: "ByteOrder \<Rightarrow> buffer \<Rightarrow> byte list \<Rightarrow> buffer result" where
  "writeString endian buf value =
     andThen (writeSize endian buf (int (length value))) (\<lambda>buf1. Ok (buf1 @ value))"

definition writeAlignment :: "buffer \<Rightarrow> nat \<Rightarrow> buffer" where
  "writeAlignment buf alignment =
     (let m = length buf mod alignment
      in if m \<noteq> 0 then buf @ replicate (alignment - m) 0 else buf)"

text \<open>\<^verbatim>\<open>binary.Write(buf, endian, slice)\<close>: the elements back to back.\<close>

definition writeSlice :: "ByteOrder \<Rightarrow> nat \<Rightarrow> buffer \<Rightarrow> 'a::len word list \<Rightarrow> buffer" where
  "writeSlice endian width buf ws = buf @ concat (map (put_word endian width) ws)"

function writeValue :: "ByteOrder \<Rightarrow> buffer \<Rightarrow> Value \<Rightarrow> buffer result"
  and writeList :: "ByteOrder \<Rightarrow> buffer \<Rightarrow> Value list \<Rightarrow> buffer result"
  and writeMap :: "ByteOrder \<Rightarrow> buffer \<Rightarrow> (Value \<times> Value) list \<Rightarrow> buffer result"
where
  "writeValue endian buf VNil = Ok (buf @ [0])"
| "writeValue endian buf (VBool typedValue) =
     (if typedValue then Ok (buf @ [1]) else Ok (buf @ [2]))"
| "writeValue endian buf (VInt32 typedValue) = Ok (writeInt32 endian (buf @ [3]) typedValue)"
| "writeValue endian buf (VInt64 typedValue) = Ok (writeInt64 endian (buf @ [4]) typedValue)"
| "writeValue endian buf (VFloat64 typedValue) =
     Ok (writeFloat64 endian (writeAlignment (buf @ [6]) 8) typedValue)"
| "writeValue endian buf (VBigInt typedValue) =
     writeString endian (buf @ [5]) (Text16 typedValue)"
| "writeValue endian buf (VString typedValue) = writeString endian (buf @ [7]) typedValue"
| "writeValue endian buf (VByteSlice typedValue) = writeBytes endian (buf @ [8]) typedValue"
| "writeValue endian buf (VInt32Slice typedValue) =
     andThen (writeSize endian (buf @ [9]) (int (length typedValue)))
       (\<lambda>buf1. Ok (writeSlice endian 4 (writeAlignment buf1 4) typedValue))"
| "writeValue endian buf (VInt64Slice typedValue) =
     andThen (writeSize endian (buf @ [10]) (int (length typedValue)))
       (\<lambda>buf1. Ok (writeSlice endian 8 (writeAlignment buf1 8) typedValue))"
| "writeValue endian buf (VFloat64Slice typedValue) =
     andThen (writeSize endian (buf @ [11]) (int (length typedValue)))
       (\<lambda>buf1. Ok (writeSlice endian 8 (writeAlignment buf1 8) typedValue))"
| "writeValue endian buf (VList typedValue) =
     andThen (writeSize endian (buf @ [12]) (int (length typedValue)))
       (\<lambda>buf1. writeList endian buf1 typedValue)"
| "writeValue endian buf (VMap typedValue) =
     andThen (writeSize endian (buf @ [13]) (int (length typedValue)))
       (\<lambda>buf1. writeMap endian buf1 typedValue)"
| "writeValue endian buf (VOther t) =
     Err (MessageTypeError (''type '' @ t @ '' is not supported by StandardMessageCodec''))"
| "writeList endian buf [] = Ok buf"
| "writeList endian buf (v # vs) =
     andThen (writeValue endian buf v) (\<lambda>buf1. writeList endian buf1 vs)"
| "writeMap endian buf [] = Ok buf"
| "writeMap endian buf ((k, v) # kvs) =
     andThen (writeValue endian buf k) (\<lambda>buf1.
     andThen (writeValue endian buf1 v) (\<lambda>buf2. writeMap endian buf2 kvs))"
  by pat_completeness auto

termination
  by (relation "measure (\<lambda>x. case x of
        Inl (e, buf, v) \<Rightarrow> size v
      | Inr (Inl (e, buf, vs)) \<Rightarrow> size_list size vs
      | Inr (Inr (e, buf, kvs)) \<Rightarrow> size_list (size_prod size size) kvs)") auto

definition EncodeMessage :: "ByteOrder \<Rightarrow> Value \<Rightarrow> buffer result" where
  "EncodeMessage endian message =
     (case writeValue endian [] message of
        Err err \<Rightarrow> Err (Wrap err ''failed to encode message'')
      | Panic msg \<Rightarrow> Panic msg
      | Ok buf \<Rightarrow> Ok buf)"

section \<open>Decoding\<close>

lemma andThen_cong [fundef_cong]:
  "r = r' \<Longrightarrow> (\<And>x. r' = Ok x \<Longrightarrow> f x = g x) \<Longrightarrow> andThen r f = andThen r' g"
  by (cases r') auto

text \<open>
  \<^verbatim>\<open>readBytes\<close>: \<^verbatim>\<open>buf.Next(length)\<close> hands out what is left when the buffer is
  shorter, and panics when \<open>length\<close> is negative.
\<close>

definition readBytes :: "ByteOrder \<Rightarrow> buffer \<Rightarrow> (byte list \<times> buffer) result" where
  "readBytes endian buf =
     (case readSize endian buf of
        Err err \<Rightarrow> Err (Wrap err ''reading size'')
      | Panic msg \<Rightarrow> Panic msg
      | Ok (len, buf1) \<Rightarrow>
          andThen (Next len buf1) (\<lambda>(value, buf2).
            if int (length value) \<noteq> len
            then Err (New ''message corrupted: not enough bytes in buffer'')
            else Ok (value, buf2)))"

text \<open>
  \<^verbatim>\<open>readAlignment\<close>: Go's \<^verbatim>\<open>%\<close> truncates towards zero (\<open>smod\<close>); the count given
  to \<^verbatim>\<open>buf.Next\<close> is positive, so it only drops bytes.
\<close>

definition readAlignment :: "buffer \<Rightarrow> int \<Rightarrow> int \<Rightarrow> buffer" where
  "readAlignment buf originalSize alignment =
     (let position = originalSize - int (length buf);
          m = position smod alignment
      in if m \<noteq> 0 then drop (nat (alignment - m)) buf else buf)"

text \<open>
  \<^verbatim>\<open>binary.Read(buf, endian, value)\<close> into a slice of \<open>n\<close> elements of \<open>width\<close>
  bytes each.
\<close>

definition readSlice ::
  "ByteOrder \<Rightarrow> nat \<Rightarrow> nat \<Rightarrow> buffer \<Rightarrow> ('a::len word list \<times> buffer) result" where
  "readSlice endian width n buf =
     andThen (ReadFull (width * n) buf) (\<lambda>(bs, buf1).
       Ok (map (\<lambda>i. get_word endian (take width (drop (i * width) bs))) [0..<n], buf1))"

text \<open>
  \<^verbatim>\<open>readValueAligned\<close>, with the two loops of its list and map cases as \<open>readList\<close>
  and \<open>readMap\<close> (the first argument counts the iterations left, the last is the list
  or map built so far). \<^verbatim>\<open>make\<close> panics on a negative length or capacity; the map
  loop just does not run on one. Memory is not modelled: an allocation of any size that
  is not negative succeeds.
\<close>

function readValueAligned :: "ByteOrder \<Rightarrow> buffer \<Rightarrow> int \<Rightarrow> (Value \<times> buffer) result"
  and readList ::
    "ByteOrder \<Rightarrow> nat \<Rightarrow> buffer \<Rightarrow> int \<Rightarrow> Value list \<Rightarrow> (Value list \<times> buffer) result"
  and readMap ::
    "ByteOrder \<Rightarrow> nat \<Rightarrow> buffer \<Rightarrow> int \<Rightarrow> (Value \<times> Value) list \<Rightarrow>
       ((Value \<times> Value) list \<times> buffer) result"
where
  "readValueAligned endian buf0 originalSize =
     (case ReadByte buf0 of
        Err err \<Rightarrow> Err (Wrap err ''reading value type'')
      | Panic msg \<Rightarrow> Panic msg
      | Ok (valueType, buf) \<Rightarrow>
          if valueType = 0 then Ok (VNil, buf)
          else if valueType = 1 then Ok (VBool True, buf)
          else if valueType = 2 then Ok (VBool False, buf)
          else if valueType = 3 then
            andThen (readInt32 endian buf) (\<lambda>(v, buf1). Ok (VInt32 v, buf1))
          else if valueType = 4 then
            andThen (readInt64 endian buf) (\<lambda>(v, buf1). Ok (VInt64 v, buf1))
          else if valueType = 6 then
            andThen (readFloat64 endian (readAlignment buf originalSize 8))
              (\<lambda>(v, buf1). Ok (VFloat64 v, buf1))
          else if valueType = 5 then
            (case readBytes endian buf of
               Err err \<Rightarrow> Err (Wrap err ''reading byte slice for bigint'')
             | Panic msg \<Rightarrow> Panic msg
             | Ok (bs, buf1) \<Rightarrow>
                 (case SetString16 bs of
                    None \<Rightarrow> Err (New ''invalid binary encoding for bigint'')
                  | Some bigint \<Rightarrow> Ok (VBigInt bigint, buf1)))
          else if valueType = 7 then
            (case readBytes endian buf of
               Err err \<Rightarrow> Err (Wrap err ''reading byte slice for string'')
             | Panic msg \<Rightarrow> Panic msg
             | Ok (bs, buf1) \<Rightarrow> Ok (VString bs, buf1))
          else if valueType = 8 then
            (case readBytes endian buf of
               Err err \<Rightarrow> Err (Wrap err ''reading byte slice'')
             | Panic msg \<Rightarrow> Panic msg
             | Ok (bs, buf1) \<Rightarrow> Ok (VByteSlice bs, buf1))
          else if valueType = 9 then
            andThen (readSize endian buf) (\<lambda>(len, buf1).
              let buf2 = readAlignment buf1 originalSize 4
              in if len < 0 then Panic ''makeslice: len out of range''
                 else andThen (readSlice endian 4 (nat len) buf2)
                        (\<lambda>(value, buf3). Ok (VInt32Slice value, buf3)))
          else if valueType = 10 then
            andThen (readSize endian buf) (\<lambda>(len, buf1).
              let buf2 = readAlignment buf1 originalSize 8
              in if len < 0 then Panic ''makeslice: len out of range''
                 else andThen (readSlice endian 8 (nat len) buf2)
                        (\<lambda>(value, buf3). Ok (VInt64Slice value, buf3)))
          else if valueType = 11 then
            andThen (readSize endian buf) (\<lambda>(len, buf1).
              let buf2 = readAlignment buf1 originalSize 8
              in if len < 0 then Panic ''makeslice: len out of range''
                 else andThen (readSlice endian 8 (nat len) buf2)
                        (\<lambda>(value, buf3). Ok (VFloat64Slice value, buf3)))
          else if valueType = 12 then
            andThen (readSize endian buf) (\<lambda>(len, buf1).
              if len < 0 then Panic ''makeslice: cap out of range''
              else andThen (readList endian (nat len) buf1 originalSize [])
                     (\<lambda>(list, buf2). Ok (VList list, buf2)))
          else if valueType = 13 then
            andThen (readSize endian buf) (\<lambda>(len, buf1).
              andThen (readMap endian (nat len) buf1 originalSize [])
                (\<lambda>(m, buf2). Ok (VMap m, buf2)))
          else Err (New ''invalid message value type''))"
| "readList endian 0 buf originalSize list = Ok (list, buf)"
| "readList endian (Suc n) buf originalSize list =
     andThen (readValueAligned endian buf originalSize) (\<lambda>(value, buf1).
       readList endian n buf1 originalSize (list @ [value]))"
| "readMap endian 0 buf originalSize m = Ok (m, buf)"
| "readMap endian (Suc n) buf originalSize m =
     andThen (readValueAligned endian buf originalSize) (\<lambda>(key, buf1).
     andThen (readValueAligned endian buf1 originalSize) (\<lambda>(value, buf2).
     andThen (mapassign m key value) (\<lambda>m1.
       readMap endian n buf2 originalSize m1)))"
  by pat_completeness auto


text \<open>
  The loops read on from where the previous element ended, so termination rests on a
  read never handing back a longer buffer.
\<close>

lemma ReadByte_shorter: "ReadByte buf = Ok (b, buf') \<Longrightarrow> length buf' < length buf"
  by (cases buf) auto

lemma ReadFull_shorter: "ReadFull n buf = Ok (bs, buf') \<Longrightarrow> length buf' \<le> length buf"
  by (auto simp: ReadFull_def split: if_splits)

lemma andThen_Ok_iff: "andThen r f = Ok y \<longleftrightarrow> (\<exists>x. r = Ok x \<and> f x = Ok y)"
  by (cases r) auto

lemma readSize_shorter: "readSize endian buf = Ok (n, buf') \<Longrightarrow> length buf' < length buf"
  by (cases buf)
     (auto simp: readSize_def readInt16_def readInt32_def andThen_Ok_iff
           split: if_splits dest!: ReadFull_shorter)


lemma readAlignment_shorter: "length (readAlignment buf os a) \<le> length buf"
  by (simp add: readAlignment_def Let_def)

lemma readBytes_shorter: "readBytes endian buf = Ok (bs, buf') \<Longrightarrow> length buf' < length buf"
  by (auto simp: readBytes_def Next_def andThen_Ok_iff
           split: result.splits if_splits dest!: readSize_shorter)

lemma readSlice_shorter:
  "readSlice endian w n buf = Ok (ws, buf') \<Longrightarrow> length buf' \<le> length buf"
  by (auto simp: readSlice_def andThen_Ok_iff dest!: ReadFull_shorter)

lemma readInt_shorter:
  "readInt32 endian buf = Ok (v32, buf') \<Longrightarrow> length buf' \<le> length buf"
  "readInt64 endian buf = Ok (v64, buf') \<Longrightarrow> length buf' \<le> length buf"
  "readFloat64 endian buf = Ok (v64, buf') \<Longrightarrow> length buf' \<le> length buf"
  by (auto simp: readInt32_def readInt64_def readFloat64_def andThen_Ok_iff dest!: ReadFull_shorter)

lemma read_aligned_shorter:
  "readFloat64 endian (readAlignment buf os a) = Ok (v64, buf') \<Longrightarrow> length buf' \<le> length buf"
  "readSlice endian w n (readAlignment buf os a) = Ok (ws, buf') \<Longrightarrow> length buf' \<le> length buf"
  using readAlignment_shorter [of buf os a]
  by (auto dest!: readInt_shorter readSlice_shorter)

lemma read_shorter:
  "readValueAligned_readList_readMap_dom (Inl (endian, buf0, originalSize)) \<Longrightarrow>
     (\<forall>v buf'. readValueAligned endian buf0 originalSize = Ok (v, buf') \<longrightarrow>
        length buf' \<le> length buf0)"
  "readValueAligned_readList_readMap_dom (Inr (Inl (endian', n, buf, originalSize', list))) \<Longrightarrow>
     (\<forall>vs buf'. readList endian' n buf originalSize' list = Ok (vs, buf') \<longrightarrow>
        length buf' \<le> length buf)"
  "readValueAligned_readList_readMap_dom (Inr (Inr (endian'', n', buf2, originalSize'', m))) \<Longrightarrow>
     (\<forall>kvs buf'. readMap endian'' n' buf2 originalSize'' m = Ok (kvs, buf') \<longrightarrow>
        length buf' \<le> length buf2)"
proof (induct rule: readValueAligned_readList_readMap.pinduct)
  case (1 endian buf0 originalSize)
  show ?case
  proof (intro allI impI)
    fix v buf'
    assume r: "readValueAligned endian buf0 originalSize = Ok (v, buf')"
    show "length buf' \<le> length buf0"
    proof (cases buf0)
      case Nil
      with r "1.hyps"(1) show ?thesis by (simp add: readValueAligned.psimps)
    next
      case (Cons t buf)
      note rb8 = readAlignment_shorter [of buf originalSize 8]
      have rb4: "\<And>b a. length (readAlignment b originalSize a) \<le> length b"
        by (rule readAlignment_shorter)
      note eq0 = r [unfolded readValueAligned.psimps [OF "1.hyps"(1)]]
      from eq0 Cons have eq:
        "readValueAligned endian (t # buf) originalSize = readValueAligned endian (t # buf) originalSize"
        by simp
      consider "t = 0" | "t = 1" | "t = 2" | "t = 3" | "t = 4" | "t = 5" | "t = 6" | "t = 7" | "t = 8" | "t = 9" | "t = 10" | "t = 11" | "t = 12" | "t = 13" | "t \<notin> {0,1,2,3,4,5,6,7,8,9,10,11,12,13}"
        by auto
      then show ?thesis
      proof cases
      case 1
      from eq0 Cons 1 rb4 rb8 show ?thesis
        by (auto simp: andThen_Ok_iff Let_def split: if_splits result.splits option.splits
                 dest!: read_aligned_shorter readInt_shorter(1,2) readBytes_shorter readSize_shorter)
    next
      case 2
      from eq0 Cons 2 rb4 rb8 show ?thesis
        by (auto simp: andThen_Ok_iff Let_def split: if_splits result.splits option.splits
                 dest!: read_aligned_shorter readInt_shorter(1,2) readBytes_shorter readSize_shorter)
    next
      case 3
      from eq0 Cons 3 rb4 rb8 show ?thesis
        by (auto simp: andThen_Ok_iff Let_def split: if_splits result.splits option.splits
                 dest!: read_aligned_shorter readInt_shorter(1,2) readBytes_shorter readSize_shorter)
    next
      case 4
      from eq0 Cons 4 rb4 rb8 show ?thesis
        by (auto simp: andThen_Ok_iff Let_def split: if_splits result.splits option.splits
                 dest!: read_aligned_shorter readInt_shorter(1,2) readBytes_shorter readSize_shorter)
    next
      case 5
      from eq0 Cons 5 rb4 rb8 show ?thesis
        by (auto simp: andThen_Ok_iff Let_def split: if_splits result.splits option.splits
                 dest!: read_aligned_shorter readInt_shorter(1,2) readBytes_shorter readSize_shorter)
    next
      case 6
      from eq0 Cons 6 rb4 rb8 show ?thesis
        by (auto simp: andThen_Ok_iff Let_def split: if_splits result.splits option.splits
                 dest!: read_aligned_shorter readInt_shorter(1,2) readBytes_shorter readSize_shorter)
    next
      case 7
      from eq0 Cons 7 rb4 rb8 show ?thesis
        by (auto simp: andThen_Ok_iff Let_def split: if_splits result.splits option.splits
                 dest!: read_aligned_shorter readInt_shorter(1,2) readBytes_shorter readSize_shorter)
    next
      case 8
      from eq0 Cons 8 rb4 rb8 show ?thesis
        by (auto simp: andThen_Ok_iff Let_def split: if_splits result.splits option.splits
                 dest!: read_aligned_shorter readInt_shorter(1,2) readBytes_shorter readSize_shorter)
    next
      case 9
      from eq0 Cons 9 rb4 rb8 show ?thesis
        by (auto simp: andThen_Ok_iff Let_def split: if_splits result.splits option.splits
                 dest!: read_aligned_shorter readInt_shorter(1,2) readBytes_shorter readSize_shorter)
    next
      case 10
      from eq0 Cons 10 rb4 rb8 show ?thesis
        by (auto simp: andThen_Ok_iff Let_def split: if_splits result.splits option.splits
                 dest!: read_aligned_shorter readInt_shorter(1,2) readBytes_shorter readSize_shorter)
    next
      case 11
      from eq0 Cons 11 rb4 rb8 show ?thesis
        by (auto simp: andThen_Ok_iff Let_def split: if_splits result.splits option.splits
                 dest!: read_aligned_shorter readInt_shorter(1,2) readBytes_shorter readSize_shorter)
    next
      case 12
      from eq0 Cons 12 rb4 rb8 show ?thesis
        by (auto simp: andThen_Ok_iff Let_def split: if_splits result.splits option.splits
                 dest!: read_aligned_shorter readInt_shorter(1,2) readBytes_shorter readSize_shorter)
    next
      case 13
      from eq0 Cons 13 "1.hyps"(2) [of "(t, buf)" t buf] readSize_shorter [of endian buf]
      show ?thesis
        by (fastforce simp: andThen_Ok_iff split: if_splits)
    next
      case 14
      from eq0 Cons 14 "1.hyps"(3) [of "(t, buf)" t buf] readSize_shorter [of endian buf]
      show ?thesis
        by (fastforce simp: andThen_Ok_iff split: if_splits)
    next
      case 15
      from eq0 Cons 15 rb4 rb8 show ?thesis
        by (auto simp: andThen_Ok_iff Let_def split: if_splits result.splits option.splits
                 dest!: read_aligned_shorter readInt_shorter(1,2) readBytes_shorter readSize_shorter)
      qed
    qed
  qed
next
  case (2 endian buf originalSize list)
  then show ?case by (simp add: readList.psimps)
next
  case (3 endian n buf originalSize list)
  then show ?case
    by (fastforce simp: readList.psimps andThen_Ok_iff)
next
  case (4 endian buf originalSize m)
  then show ?case by (simp add: readMap.psimps)
next
  case (5 endian n buf originalSize m)
  then show ?case
    by (fastforce simp: readMap.psimps andThen_Ok_iff)
qed


lemma read_shorter_dom:
  "readValueAligned_readList_readMap_dom (Inl (endian, buf0, originalSize)) \<Longrightarrow>
   readValueAligned endian buf0 originalSize = Ok (v, buf') \<Longrightarrow> length buf' \<le> length buf0"
  using read_shorter(1) by blast

termination readValueAligned
proof (relation "inv_image (less_than <*lex*> less_than)
    (\<lambda>x. case x of
       Inl (e, buf, os) \<Rightarrow> (length buf, 0)
     | Inr (Inl (e, n, buf, os, l)) \<Rightarrow> (length buf, Suc n)
     | Inr (Inr (e, n, buf, os, m)) \<Rightarrow> (length buf, Suc n))", goal_cases)
  case 1
  show ?case by (intro wf_inv_image wf_lex_prod wf_less_than)
next
  case (2 endian buf0 originalSize x1 x y xa xb ya)
  then show ?case
    using ReadByte_shorter [of buf0 x y] readSize_shorter [of endian y xb ya] by simp
next
  case (3 endian buf0 originalSize x1 x y xa xb ya)
  then show ?case
    using ReadByte_shorter [of buf0 x y] readSize_shorter [of endian y xb ya] by simp
next
  case 4
  show ?case by simp
next
  case (5 endian n buf originalSize list x xa y)
  then show ?case
    using read_shorter_dom [of endian buf originalSize xa y] by auto
next
  case 6
  show ?case by simp
next
  case (7 endian n buf originalSize m x xa y)
  then show ?case
    using read_shorter_dom [of endian buf originalSize xa y] by auto
next
  case (8 endian n buf originalSize m x xa y xb xc ya xd)
  then show ?case
    using read_shorter_dom [of endian buf originalSize xa y]
      read_shorter_dom [of endian y originalSize xc ya] by auto
qed

declare readValueAligned.simps [simp del]

definition readValue :: "ByteOrder \<Rightarrow> buffer \<Rightarrow> (Value \<times> buffer) result" where
  "readValue endian buf = readValueAligned endian buf (int (length buf))"

definition DecodeMessage :: "ByteOrder \<Rightarrow> buffer \<Rightarrow> Value result" where
  "DecodeMessage endian data =
     (case readValue endian data of
        Err err \<Rightarrow> Err (Wrap err ''failed to decode data to message'')
      | Panic msg \<Rightarrow> Panic msg
      | Ok (message, buf) \<Rightarrow> Ok message)"

section \<open>Properties of the primitives\<close>

subsection \<open>Byte order\<close>

lemma le_bytes_length [simp]: "length (le_bytes n w) = n"
  by (induction n arbitrary: w) auto

lemma put_word_length [simp]: "length (put_word endian n w) = n"
  by (simp add: put_word_def split: ByteOrder.splits)

lemma le_word_le_bytes:
  "(le_word (le_bytes n w) :: 'a::len word) = take_bit (8 * n) (w :: 'a word)"
proof (induction n arbitrary: w)
  case 0
  show ?case by simp
next
  case (Suc n)
  show ?case
    apply (simp add: Suc)
    apply (rule bit_word_eqI)
    apply (auto simp: bit_simps)
    done
qed

lemma get_put_word:
  "LENGTH('a::len) \<le> 8 * n \<Longrightarrow> (get_word endian (put_word endian n (w :: 'a word)) :: 'a word) = w"
  by (cases endian) (simp_all add: get_word_def put_word_def le_word_le_bytes take_bit_word_eq_self)

lemma ReadFull_append:
  "length bs = n \<Longrightarrow> ReadFull n (bs @ rest) = Ok (bs, rest)"
  by (auto simp: ReadFull_def)

lemma readInt16_put [simp]: "readInt16 endian (put_word endian 2 w @ rest) = Ok (w, rest)"
  by (simp add: readInt16_def ReadFull_append get_put_word)

lemma readInt32_put [simp]: "readInt32 endian (put_word endian 4 w @ rest) = Ok (w, rest)"
  by (simp add: readInt32_def ReadFull_append get_put_word)

lemma readInt64_put [simp]: "readInt64 endian (put_word endian 8 w @ rest) = Ok (w, rest)"
  by (simp add: readInt64_def ReadFull_append get_put_word)

lemma readFloat64_put [simp]: "readFloat64 endian (put_word endian 8 w @ rest) = Ok (w, rest)"
  by (simp add: readFloat64_def ReadFull_append get_put_word)

subsection \<open>The size codec\<close>

lemma writeSize_bytes:
  "0 \<le> n \<Longrightarrow> writeSize endian buf n = Ok (buf @
     (if n < 254 then [of_int n]
      else if n \<le> 65535 then 254 # put_word endian 2 (of_int n :: 16 word)
      else 255 # put_word endian 4 (of_int n :: 32 word)))"
  by (simp add: writeSize_def writeInt16_def writeInt32_def)

text \<open>The bytes \<^verbatim>\<open>writeSize\<close> appends for a size that is not negative.\<close>

definition sizeBytes :: "ByteOrder \<Rightarrow> int \<Rightarrow> byte list" where
  "sizeBytes endian n =
     (if n < 254 then [of_int n]
      else if n \<le> 65535 then 254 # put_word endian 2 (of_int n :: 16 word)
      else 255 # put_word endian 4 (of_int n :: 32 word))"

lemma readSize_sizeBytes:
  "0 \<le> n \<Longrightarrow> readSize endian (sizeBytes endian n @ rest) =
     Ok (if n < 254 then n
         else if n \<le> 65535 then sint (of_int n :: 16 word)
         else sint (of_int n :: 32 word), rest)"
proof -
  assume n: "0 \<le> n"
  have small: "n < 254 \<Longrightarrow> (of_int n :: byte) < 254 \<and> uint (of_int n :: byte) = n"
    using n by (simp add: word_less_def uint_word_of_int take_bit_eq_mod)
  show ?thesis
    using small by (auto simp: sizeBytes_def readSize_def)
qed

lemma writeSize_sizeBytes: "writeSize endian buf (int n) = Ok (buf @ sizeBytes endian (int n))"
  by (simp add: writeSize_bytes sizeBytes_def)

text \<open>
  The sizes \<^verbatim>\<open>readSize\<close> reads back as \<^verbatim>\<open>writeSize\<close> wrote them: those below 32768
  (one byte, or a 2-byte integer that is not negative as an \<^verbatim>\<open>int16\<close>), and those from
  65536 that are below \<open>2 ^ 31\<close> (a 4-byte integer that is not negative as an
  \<^verbatim>\<open>int32\<close>).
\<close>

definition sizeOK :: "nat \<Rightarrow> bool" where
  "sizeOK n = (n < 32768 \<or> (65536 \<le> n \<and> n < 2147483648))"

lemma readSize_sizeOK:
  "sizeOK n \<Longrightarrow> readSize endian (sizeBytes endian (int n) @ rest) = Ok (int n, rest)"
proof -
  assume ok: "sizeOK n"
  have a: "n < 32768 \<Longrightarrow> sint (of_int (int n) :: 16 word) = int n"
    by (simp add: signed_of_nat signed_take_bit_int_eq_self)
  have b: "n < 2147483648 \<Longrightarrow> sint (of_int (int n) :: 32 word) = int n"
    by (simp add: signed_of_nat signed_take_bit_int_eq_self)
  from ok a b readSize_sizeBytes [of "int n" endian rest] show ?thesis
    by (auto simp: sizeOK_def)
qed

text \<open>
  \<^verbatim>\<open>writeSize\<close> writes such a size as byte 254 and \<^verbatim>\<open>int16(value)\<close>;
  \<^verbatim>\<open>readSize\<close> returns \<^verbatim>\<open>int(v)\<close> of the \<^verbatim>\<open>int16\<close> it reads, which is the size
  minus 65536.
\<close>

lemma readSize_signed16:
  "32768 \<le> n \<Longrightarrow> n \<le> 65535 \<Longrightarrow>
   readSize endian (254 # put_word endian 2 (of_int n :: 16 word) @ rest) = Ok (n - 65536, rest)"
proof -
  assume n: "32768 \<le> n" "n \<le> 65535"
  have "(n + 32768) mod 65536 = (n - 32768 + 65536) mod 65536"
    by (simp add: add.commute)
  also have "\<dots> = (n - 32768) mod 65536"
    by (simp only: mod_add_self2)
  also have "\<dots> = n - 32768"
    using n by simp
  finally have "(n + 32768) mod 65536 = n - 32768" .
  then have "sint (of_int n :: 16 word) = n - 65536"
    using n by (simp add: sint_uint uint_word_of_int take_bit_eq_mod signed_take_bit_eq_take_bit_shift)
  with n readSize_sizeBytes [of n endian rest] show ?thesis
    by (simp add: sizeBytes_def)
qed

lemma readBytes_sizeOK:
  "sizeOK (length bs) \<Longrightarrow>
   readBytes endian (sizeBytes endian (int (length bs)) @ bs @ rest) = Ok (bs, rest)"
  by (simp add: readBytes_def readSize_sizeOK Next_def)

subsection \<open>Alignment\<close>

text \<open>The number of padding bytes \<^verbatim>\<open>writeAlignment\<close> appends to a buffer of length \<open>n\<close>.\<close>

definition padding :: "nat \<Rightarrow> nat \<Rightarrow> nat" where
  "padding n a = (if n mod a \<noteq> 0 then a - n mod a else 0)"

lemma writeAlignment_padding:
  "writeAlignment buf a = buf @ replicate (padding (length buf) a) 0"
  by (simp add: writeAlignment_def padding_def Let_def)

lemma smod_nat: "int n smod int a = int (n mod a)"
  by (simp add: smod_int_alt_def zmod_int sgn_if)

lemma readAlignment_padding:
  "0 < a \<Longrightarrow>
   readAlignment (replicate (padding n a) 0 @ rest) (int (n + padding n a + length rest)) (int a)
     = rest"
  by (auto simp: readAlignment_def Let_def padding_def smod_nat nat_diff_distrib' of_nat_diff)

lemma readAlignment_padding':
  "0 < a \<Longrightarrow> os = int (n + padding n a + length rest) \<Longrightarrow> ia = int a \<Longrightarrow>
   readAlignment (replicate (padding n a) 0 @ rest) os ia = rest"
  using readAlignment_padding [of a n rest] by simp

subsection \<open>Numeric arrays\<close>

lemma take_drop_concat:
  "\<forall>x \<in> set xs. length (f x) = w \<Longrightarrow> i < length xs \<Longrightarrow>
   take w (drop (i * w) (concat (map f xs))) = f (xs ! i)"
proof (induction xs arbitrary: i)
  case Nil
  then show ?case by simp
next
  case (Cons x xs)
  show ?case
  proof (cases i)
    case 0
    with Cons.prems show ?thesis by simp
  next
    case (Suc j)
    with Cons.prems Cons.IH [of j] show ?thesis by (simp add: add.commute)
  qed
qed

lemma readSlice_writeSlice:
  "LENGTH('a::len) \<le> 8 * w \<Longrightarrow>
   readSlice endian w (length ws) (concat (map (put_word endian w) (ws :: 'a word list)) @ rest)
     = Ok (ws, rest)"
proof -
  assume len: "LENGTH('a) \<le> 8 * w"
  have l: "length (concat (map (put_word endian w) ws)) = w * length ws"
    by (induction ws) auto
  have "map (\<lambda>i. get_word endian (take w (drop (i * w) (concat (map (put_word endian w) ws)))))
          [0..<length ws] = ws"
    by (rule nth_equalityI) (simp_all add: take_drop_concat get_put_word [OF len])
  with l show ?thesis
    by (simp add: readSlice_def ReadFull_append)
qed

text \<open>What the encoder appends after the tag byte of a numeric array.\<close>

definition sliceBytes ::
  "ByteOrder \<Rightarrow> nat \<Rightarrow> nat \<Rightarrow> 'a::len word list \<Rightarrow> byte list" where
  "sliceBytes endian n w ws =
     sizeBytes endian (int (length ws)) @
     replicate (padding (Suc (n + length (sizeBytes endian (int (length ws))))) w) 0 @
     concat (map (put_word endian w) ws)"

lemma write_slice:
  "andThen (writeSize endian (buf @ [t]) (int (length ws)))
     (\<lambda>buf1. Ok (writeSlice endian w (writeAlignment buf1 w) ws)) =
   Ok (buf @ t # sliceBytes endian (length buf) w ws)"
  by (simp add: writeSize_sizeBytes writeSlice_def writeAlignment_padding sliceBytes_def)

lemma read_slice:
  fixes ws :: "'a::len word list"
  assumes "sizeOK (length ws)" "0 < w" "LENGTH('a) \<le> 8 * w"
    and "os = int (length buf + length (t # sliceBytes endian (length buf) w ws) + length rest)"
    and "ia = int w"
  shows "andThen (readSize endian (sliceBytes endian (length buf) w ws @ rest)) (\<lambda>(len, buf1).
          if len < 0 then Panic ''makeslice: len out of range''
          else andThen (readSlice endian w (nat len) (readAlignment buf1 os ia))
                 (\<lambda>(value, buf3). Ok (C value, buf3))) = Ok (C ws, rest)"
proof -
  let ?sz = "sizeBytes endian (int (length ws))"
  let ?n = "Suc (length buf + length ?sz)"
  let ?p = "padding ?n w"
  let ?data = "concat (map (put_word endian w) ws)"
  show ?thesis
    using assms
      readAlignment_padding' [of w os ?n "?data @ rest" ia]
      readSize_sizeOK [OF assms(1), of endian "replicate ?p 0 @ ?data @ rest"]
      readSlice_writeSlice [OF assms(3), of endian ws rest]
    by (simp add: sliceBytes_def)
qed

subsection \<open>Big integers as text\<close>

lemma Text16_255: "Text16 255 = map of_char ''ff''"
  by (simp add: Text16_def hexNat.simps hexDigit_def)

lemma Text16_m1: "Text16 (- 1) = map of_char ''-1''"
  by (simp add: Text16_def hexNat.simps hexDigit_def)

lemma lt16_cases:
  "d < 16 \<Longrightarrow> d \<in> {0, 1, 2, 3, 4, 5, 6, 7, 8, 9, 10, 11, 12, 13, 14, 15 :: nat}"
  by simp presburger

lemma digitVal_hexDigit: "d < 16 \<Longrightarrow> digitVal (hexDigit d) = Some d"
  by (drule lt16_cases) (auto simp: digitVal_def hexDigit_def)

lemma hexDigit_no_sign:
  "d < 16 \<Longrightarrow> hexDigit d \<noteq> of_char CHR ''-'' \<and> hexDigit d \<noteq> of_char CHR ''+''"
  by (drule lt16_cases) (auto simp: hexDigit_def)

lemma scanDigits_snoc:
  "d < 16 \<Longrightarrow>
   scanDigits acc (s @ [hexDigit d]) = map_option (\<lambda>a. a * 16 + d) (scanDigits acc s)"
  by (induction s arbitrary: acc) (auto simp: digitVal_hexDigit split: option.splits)

lemma scanDigits_hexNat: "scanDigits 0 (hexNat n) = Some n"
proof (induction n rule: hexNat.induct)
  case (1 n)
  show ?case
  proof (cases "n < 16")
    case True
    then show ?thesis by (simp add: hexNat.simps [of n] digitVal_hexDigit)
  next
    case False
    with 1 show ?thesis
      by (simp add: hexNat.simps [of n] scanDigits_snoc)
  qed
qed

lemma hexNat_hd: "\<exists>d s. d < 16 \<and> hexNat n = hexDigit d # s"
proof (induction n rule: hexNat.induct)
  case (1 n)
  show ?case
  proof (cases "n < 16")
    case True
    then show ?thesis by (auto simp: hexNat.simps [of n])
  next
    case False
    with 1 obtain d s where "d < 16" "hexNat (n div 16) = hexDigit d # s" by blast
    with False show ?thesis by (auto simp: hexNat.simps [of n])
  qed
qed

lemma SetString16_Text16: "SetString16 (Text16 x) = Some x"
proof -
  obtain d s where ds: "d < 16" "hexNat (nat \<bar>x\<bar>) = hexDigit d # s"
    using hexNat_hd by blast
  from scanDigits_hexNat [of "nat \<bar>x\<bar>"] ds hexDigit_no_sign [OF ds(1)]
  show ?thesis
    by (cases "x < 0") (auto simp: SetString16_def Text16_def Let_def abs_if)
qed

subsection \<open>The decoder case by case\<close>

lemma readValueAligned_Nil: "readValueAligned endian [] os = Err (Wrap EOF ''reading value type'')"
  by (simp add: readValueAligned.simps)

lemma readValueAligned_tag:
  "readValueAligned endian (0 # buf) os = Ok (VNil, buf)"
  "readValueAligned endian (1 # buf) os = Ok (VBool True, buf)"
  "readValueAligned endian (2 # buf) os = Ok (VBool False, buf)"
  "readValueAligned endian (3 # buf) os =
     andThen (readInt32 endian buf) (\<lambda>(v, buf1). Ok (VInt32 v, buf1))"
  "readValueAligned endian (4 # buf) os =
     andThen (readInt64 endian buf) (\<lambda>(v, buf1). Ok (VInt64 v, buf1))"
  "readValueAligned endian (5 # buf) os =
     (case readBytes endian buf of
        Err err \<Rightarrow> Err (Wrap err ''reading byte slice for bigint'')
      | Panic msg \<Rightarrow> Panic msg
      | Ok (bs, buf1) \<Rightarrow>
          (case SetString16 bs of
             None \<Rightarrow> Err (New ''invalid binary encoding for bigint'')
           | Some bigint \<Rightarrow> Ok (VBigInt bigint, buf1)))"
  "readValueAligned endian (6 # buf) os =
     andThen (readFloat64 endian (readAlignment buf os 8)) (\<lambda>(v, buf1). Ok (VFloat64 v, buf1))"
  "readValueAligned endian (7 # buf) os =
     (case readBytes endian buf of
        Err err \<Rightarrow> Err (Wrap err ''reading byte slice for string'')
      | Panic msg \<Rightarrow> Panic msg
      | Ok (bs, buf1) \<Rightarrow> Ok (VString bs, buf1))"
  "readValueAligned endian (8 # buf) os =
     (case readBytes endian buf of
        Err err \<Rightarrow> Err (Wrap err ''reading byte slice'')
      | Panic msg \<Rightarrow> Panic msg
      | Ok (bs, buf1) \<Rightarrow> Ok (VByteSlice bs, buf1))"
  "readValueAligned endian (9 # buf) os =
     andThen (readSize endian buf) (\<lambda>(len, buf1).
       if len < 0 then Panic ''makeslice: len out of range''
       else andThen (readSlice endian 4 (nat len) (readAlignment buf1 os 4))
              (\<lambda>(value, buf3). Ok (VInt32Slice value, buf3)))"
  "readValueAligned endian (10 # buf) os =
     andThen (readSize endian buf) (\<lambda>(len, buf1).
       if len < 0 then Panic ''makeslice: len out of range''
       else andThen (readSlice endian 8 (nat len) (readAlignment buf1 os 8))
              (\<lambda>(value, buf3). Ok (VInt64Slice value, buf3)))"
  "readValueAligned endian (11 # buf) os =
     andThen (readSize endian buf) (\<lambda>(len, buf1).
       if len < 0 then Panic ''makeslice: len out of range''
       else andThen (readSlice endian 8 (nat len) (readAlignment buf1 os 8))
              (\<lambda>(value, buf3). Ok (VFloat64Slice value, buf3)))"
  "readValueAligned endian (12 # buf) os =
     andThen (readSize endian buf) (\<lambda>(len, buf1).
       if len < 0 then Panic ''makeslice: cap out of range''
       else andThen (readList endian (nat len) buf1 os []) (\<lambda>(list, buf2). Ok (VList list, buf2)))"
  "readValueAligned endian (13 # buf) os =
     andThen (readSize endian buf) (\<lambda>(len, buf1).
       andThen (readMap endian (nat len) buf1 os []) (\<lambda>(m, buf2). Ok (VMap m, buf2)))"
  by (simp_all add: readValueAligned.simps Let_def)

lemma readValueAligned_badtag:
  "t \<notin> {0, 1, 2, 3, 4, 5, 6, 7, 8, 9, 10, 11, 12, 13} \<Longrightarrow>
   readValueAligned endian (t # buf) os = Err (New ''invalid message value type'')"
  by (simp add: readValueAligned.simps)

lemma tag_cases:
  fixes t :: byte
  obtains "t = 0" | "t = 1" | "t = 2" | "t = 3" | "t = 4" | "t = 5" | "t = 6" | "t = 7"
    | "t = 8" | "t = 9" | "t = 10" | "t = 11" | "t = 12" | "t = 13"
    | "t \<notin> {0, 1, 2, 3, 4, 5, 6, 7, 8, 9, 10, 11, 12, 13}"
  by auto

section \<open>Round trip\<close>

text \<open>
  \<open>decodable v\<close>: \<open>v\<close> is of a supported type, every length in it (of a string, a byte
  buffer, an array, a list, a map, the text of a big integer) is one that the size codec
  reads back, and every map key in it can be hashed.
\<close>

function decodable :: "Value \<Rightarrow> bool"
  and decodableList :: "Value list \<Rightarrow> bool"
  and decodableMap :: "(Value \<times> Value) list \<Rightarrow> bool"
where
  "decodable (VList vs) = (sizeOK (length vs) \<and> decodableList vs)"
| "decodable (VMap kvs) = (sizeOK (length kvs) \<and> decodableMap kvs)"
| "decodable (VOther t) = False"
| "decodable VNil = True"
| "decodable (VBool b) = True"
| "decodable (VInt32 i) = True"
| "decodable (VInt64 i) = True"
| "decodable (VBigInt i) = sizeOK (length (Text16 i))"
| "decodable (VFloat64 x) = True"
| "decodable (VString s) = sizeOK (length s)"
| "decodable (VByteSlice bs) = sizeOK (length bs)"
| "decodable (VInt32Slice ws) = sizeOK (length ws)"
| "decodable (VInt64Slice ws) = sizeOK (length ws)"
| "decodable (VFloat64Slice ws) = sizeOK (length ws)"
| "decodableList [] = True"
| "decodableList (v # vs) = (decodable v \<and> decodableList vs)"
| "decodableMap [] = True"
| "decodableMap ((k, v) # kvs) = (hashable k \<and> decodable k \<and> decodable v \<and> decodableMap kvs)"
  by pat_completeness auto

termination decodable
  by (relation "measure (\<lambda>x. case x of
        Inl v \<Rightarrow> size v
      | Inr (Inl vs) \<Rightarrow> size_list size vs
      | Inr (Inr kvs) \<Rightarrow> size_list (size_prod size size) kvs)") auto

text \<open>
  \<open>assignAll m kvs\<close> is the map after \<^verbatim>\<open>m[k] = v\<close> for each pair of \<open>kvs\<close> in turn, and
  \<open>asDecoded v\<close> is \<open>v\<close> with every map in it built that way, as the decoder builds it.
\<close>

fun assignAll :: "(Value \<times> Value) list \<Rightarrow> (Value \<times> Value) list \<Rightarrow> (Value \<times> Value) list" where
  "assignAll m [] = m"
| "assignAll m ((k, v) # kvs) = assignAll (filter (\<lambda>(k', v'). \<not> keyEqual k' k) m @ [(k, v)]) kvs"

function asDecoded :: "Value \<Rightarrow> Value"
  and asDecodedList :: "Value list \<Rightarrow> Value list"
  and asDecodedMap :: "(Value \<times> Value) list \<Rightarrow> (Value \<times> Value) list"
where
  "asDecoded (VList vs) = VList (asDecodedList vs)"
| "asDecoded (VMap kvs) = VMap (assignAll [] (asDecodedMap kvs))"
| "asDecoded (VOther t) = VOther t"
| "asDecoded VNil = VNil"
| "asDecoded (VBool b) = VBool b"
| "asDecoded (VInt32 i) = VInt32 i"
| "asDecoded (VInt64 i) = VInt64 i"
| "asDecoded (VBigInt i) = VBigInt i"
| "asDecoded (VFloat64 x) = VFloat64 x"
| "asDecoded (VString s) = VString s"
| "asDecoded (VByteSlice bs) = VByteSlice bs"
| "asDecoded (VInt32Slice ws) = VInt32Slice ws"
| "asDecoded (VInt64Slice ws) = VInt64Slice ws"
| "asDecoded (VFloat64Slice ws) = VFloat64Slice ws"
| "asDecodedList [] = []"
| "asDecodedList (v # vs) = asDecoded v # asDecodedList vs"
| "asDecodedMap [] = []"
| "asDecodedMap ((k, v) # kvs) = (asDecoded k, asDecoded v) # asDecodedMap kvs"
  by pat_completeness auto

termination asDecoded
  by (relation "measure (\<lambda>x. case x of
        Inl v \<Rightarrow> size v
      | Inr (Inl vs) \<Rightarrow> size_list size vs
      | Inr (Inr kvs) \<Rightarrow> size_list (size_prod size size) kvs)") auto

lemma asDecoded_hashable: "hashable k \<Longrightarrow> asDecoded k = k"
  by (cases k) auto

lemma roundtrip_float64:
  "\<exists>bs. writeValue endian buf (VFloat64 x) = Ok (buf @ bs) \<and>
     (\<forall>rest os. os = int (length buf + length bs + length rest) \<longrightarrow>
        readValueAligned endian (bs @ rest) os = Ok (VFloat64 x, rest))"
proof -
  let ?p = "padding (Suc (length buf)) 8"
  let ?bs = "6 # replicate ?p 0 @ put_word endian 8 x"
  have w: "writeValue endian buf (VFloat64 x) = Ok (buf @ ?bs)"
    by (simp add: writeFloat64_def writeAlignment_padding)
  have r: "readValueAligned endian (?bs @ rest) os = Ok (VFloat64 x, rest)"
    if "os = int (length buf + length ?bs + length rest)" for rest os
    using that
      readAlignment_padding' [of 8 os "Suc (length buf)" "put_word endian 8 x @ rest" 8]
    by (simp add: readValueAligned_tag)
  from w r show ?thesis by blast
qed

text \<open>
  The encoder appends to \<open>buf\<close>; the decoder, given what was appended and anything after
  it, and the length of the whole message as \<open>originalSize\<close>, reads the value back and
  leaves what came after it.
\<close>

lemma roundtrip_aux:
  "decodable v \<longrightarrow> (\<exists>bs. writeValue endian buf v = Ok (buf @ bs) \<and>
     (\<forall>rest os. os = int (length buf + length bs + length rest) \<longrightarrow>
        readValueAligned endian (bs @ rest) os = Ok (asDecoded v, rest)))"
  "decodableList vs \<longrightarrow> (\<exists>bs. writeList endian' buf' vs = Ok (buf' @ bs) \<and>
     (\<forall>rest os acc. os = int (length buf' + length bs + length rest) \<longrightarrow>
        readList endian' (length vs) (bs @ rest) os acc = Ok (acc @ asDecodedList vs, rest)))"
  "decodableMap kvs \<longrightarrow> (\<exists>bs. writeMap endian'' buf'' kvs = Ok (buf'' @ bs) \<and>
     (\<forall>rest os m. os = int (length buf'' + length bs + length rest) \<longrightarrow>
        readMap endian'' (length kvs) (bs @ rest) os m =
          Ok (assignAll m (asDecodedMap kvs), rest)))"
proof (induct endian buf v and endian' buf' vs and endian'' buf'' kvs
    rule: writeValue_writeList_writeMap.induct)
  case (1 endian buf)
  show ?case by (auto simp: readValueAligned_tag intro!: exI [of _ "[0]"])
next
  case (2 endian buf typedValue)
  show ?case
    by (cases typedValue) (auto simp: readValueAligned_tag intro!: exI [of _ "[1]"] exI [of _ "[2]"])
next
  case (3 endian buf typedValue)
  show ?case
    by (auto simp: readValueAligned_tag writeInt32_def
             intro!: exI [of _ "3 # put_word endian 4 typedValue"])
next
  case (4 endian buf typedValue)
  show ?case
    by (auto simp: readValueAligned_tag writeInt64_def
             intro!: exI [of _ "4 # put_word endian 8 typedValue"])
next
  case (5 endian buf typedValue)
  from roundtrip_float64 [of endian buf typedValue] show ?case by simp
next
  case (6 endian buf typedValue)
  show ?case
    by (auto simp: readValueAligned_tag writeString_def writeSize_sizeBytes readBytes_sizeOK
               SetString16_Text16
             intro!: exI [of _ "5 # sizeBytes endian (int (length (Text16 typedValue))) @
                                  Text16 typedValue"])
next
  case (7 endian buf typedValue)
  show ?case
    by (auto simp: readValueAligned_tag writeString_def writeSize_sizeBytes readBytes_sizeOK
             intro!: exI [of _ "7 # sizeBytes endian (int (length typedValue)) @ typedValue"])
next
  case (8 endian buf typedValue)
  show ?case
    by (auto simp: readValueAligned_tag writeBytes_def writeSize_sizeBytes readBytes_sizeOK
             intro!: exI [of _ "8 # sizeBytes endian (int (length typedValue)) @ typedValue"])
next
  case (9 endian buf typedValue)
  show ?case
    using read_slice [of typedValue 4 _ buf 9 endian _ 4 VInt32Slice]
    by (auto simp: readValueAligned_tag write_slice
             intro!: exI [of _ "9 # sliceBytes endian (length buf) 4 typedValue"])
next
  case (10 endian buf typedValue)
  show ?case
    using read_slice [of typedValue 8 _ buf 10 endian _ 8 VInt64Slice]
    by (auto simp: readValueAligned_tag write_slice
             intro!: exI [of _ "10 # sliceBytes endian (length buf) 8 typedValue"])
next
  case (11 endian buf typedValue)
  show ?case
    using read_slice [of typedValue 8 _ buf 11 endian _ 8 VFloat64Slice]
    by (auto simp: readValueAligned_tag write_slice
             intro!: exI [of _ "11 # sliceBytes endian (length buf) 8 typedValue"])
next
  case (12 endian buf typedValue)
  show ?case
  proof
    assume "decodable (VList typedValue)"
    then have ok: "sizeOK (length typedValue)" and dl: "decodableList typedValue" by simp_all
    let ?sz = "sizeBytes endian (int (length typedValue))"
    from 12 [of "buf @ 12 # ?sz"] dl obtain bs where
      w: "writeList endian (buf @ 12 # ?sz) typedValue = Ok ((buf @ 12 # ?sz) @ bs)"
      and r: "\<And>rest os acc. os = int (length (buf @ 12 # ?sz) + length bs + length rest) \<Longrightarrow>
        readList endian (length typedValue) (bs @ rest) os acc =
          Ok (acc @ asDecodedList typedValue, rest)"
      by blast
    have "writeValue endian buf (VList typedValue) = Ok (buf @ (12 # ?sz @ bs))"
      using w by (simp add: writeSize_sizeBytes)
    moreover have "readValueAligned endian ((12 # ?sz @ bs) @ rest) os =
        Ok (asDecoded (VList typedValue), rest)"
      if "os = int (length buf + length (12 # ?sz @ bs) + length rest)" for rest os
      using that r [of os rest "[]"] readSize_sizeOK [OF ok, of endian "bs @ rest"]
      by (simp add: readValueAligned_tag)
    ultimately show "\<exists>bs. writeValue endian buf (VList typedValue) = Ok (buf @ bs) \<and>
       (\<forall>rest os. os = int (length buf + length bs + length rest) \<longrightarrow>
          readValueAligned endian (bs @ rest) os = Ok (asDecoded (VList typedValue), rest))"
      by blast
  qed
next
  case (13 endian buf typedValue)
  show ?case
  proof
    assume "decodable (VMap typedValue)"
    then have ok: "sizeOK (length typedValue)" and dl: "decodableMap typedValue" by simp_all
    let ?sz = "sizeBytes endian (int (length typedValue))"
    from 13 [of "buf @ 13 # ?sz"] dl obtain bs where
      w: "writeMap endian (buf @ 13 # ?sz) typedValue = Ok ((buf @ 13 # ?sz) @ bs)"
      and r: "\<And>rest os m. os = int (length (buf @ 13 # ?sz) + length bs + length rest) \<Longrightarrow>
        readMap endian (length typedValue) (bs @ rest) os m =
          Ok (assignAll m (asDecodedMap typedValue), rest)"
      by blast
    have "writeValue endian buf (VMap typedValue) = Ok (buf @ (13 # ?sz @ bs))"
      using w by (simp add: writeSize_sizeBytes)
    moreover have "readValueAligned endian ((13 # ?sz @ bs) @ rest) os =
        Ok (asDecoded (VMap typedValue), rest)"
      if "os = int (length buf + length (13 # ?sz @ bs) + length rest)" for rest os
      using that r [of os rest "[]"] readSize_sizeOK [OF ok, of endian "bs @ rest"]
      by (simp add: readValueAligned_tag)
    ultimately show "\<exists>bs. writeValue endian buf (VMap typedValue) = Ok (buf @ bs) \<and>
       (\<forall>rest os. os = int (length buf + length bs + length rest) \<longrightarrow>
          readValueAligned endian (bs @ rest) os = Ok (asDecoded (VMap typedValue), rest))"
      by blast
  qed
next
  case (14 endian buf t)
  show ?case by simp
next
  case (15 endian buf)
  show ?case by simp
next
  case (16 endian buf v vs)
  show ?case
  proof
    assume "decodableList (v # vs)"
    then have dv: "decodable v" and dl: "decodableList vs" by simp_all
    from 16(1) dv obtain b1 where
      w1: "writeValue endian buf v = Ok (buf @ b1)"
      and r1: "\<And>rest os. os = int (length buf + length b1 + length rest) \<Longrightarrow>
        readValueAligned endian (b1 @ rest) os = Ok (asDecoded v, rest)"
      by blast
    from 16(2) [of "buf @ b1"] dl obtain b2 where
      w2: "writeList endian (buf @ b1) vs = Ok ((buf @ b1) @ b2)"
      and r2: "\<And>rest os acc. os = int (length (buf @ b1) + length b2 + length rest) \<Longrightarrow>
        readList endian (length vs) (b2 @ rest) os acc = Ok (acc @ asDecodedList vs, rest)"
      by blast
    have "writeList endian buf (v # vs) = Ok (buf @ (b1 @ b2))"
      using w1 w2 by simp
    moreover have "readList endian (length (v # vs)) ((b1 @ b2) @ rest) os acc =
        Ok (acc @ asDecodedList (v # vs), rest)"
      if "os = int (length buf + length (b1 @ b2) + length rest)" for rest os acc
      using that r1 [of os "b2 @ rest"] r2 [of os rest "acc @ [asDecoded v]"]
      by simp
    ultimately show "\<exists>bs. writeList endian buf (v # vs) = Ok (buf @ bs) \<and>
       (\<forall>rest os acc. os = int (length buf + length bs + length rest) \<longrightarrow>
          readList endian (length (v # vs)) (bs @ rest) os acc =
            Ok (acc @ asDecodedList (v # vs), rest))"
      by blast
  qed
next
  case (17 endian buf)
  show ?case by simp
next
  case (18 endian buf k v kvs)
  show ?case
  proof
    assume "decodableMap ((k, v) # kvs)"
    then have hk: "hashable k" and dk: "decodable k" and dv: "decodable v"
      and dl: "decodableMap kvs" by simp_all
    from 18(1) dk obtain b1 where
      w1: "writeValue endian buf k = Ok (buf @ b1)"
      and r1: "\<And>rest os. os = int (length buf + length b1 + length rest) \<Longrightarrow>
        readValueAligned endian (b1 @ rest) os = Ok (asDecoded k, rest)"
      by blast
    from 18(2) [of "buf @ b1"] dv obtain b2 where
      w2: "writeValue endian (buf @ b1) v = Ok ((buf @ b1) @ b2)"
      and r2: "\<And>rest os. os = int (length (buf @ b1) + length b2 + length rest) \<Longrightarrow>
        readValueAligned endian (b2 @ rest) os = Ok (asDecoded v, rest)"
      by blast
    from 18(3) [of "(buf @ b1) @ b2"] dl obtain b3 where
      w3: "writeMap endian ((buf @ b1) @ b2) kvs = Ok (((buf @ b1) @ b2) @ b3)"
      and r3: "\<And>rest os m. os = int (length ((buf @ b1) @ b2) + length b3 + length rest) \<Longrightarrow>
        readMap endian (length kvs) (b3 @ rest) os m = Ok (assignAll m (asDecodedMap kvs), rest)"
      by blast
    have "writeMap endian buf ((k, v) # kvs) = Ok (buf @ (b1 @ b2 @ b3))"
      using w1 w2 w3 by simp
    moreover have "readMap endian (length ((k, v) # kvs)) ((b1 @ b2 @ b3) @ rest) os m =
        Ok (assignAll m (asDecodedMap ((k, v) # kvs)), rest)"
      if "os = int (length buf + length (b1 @ b2 @ b3) + length rest)" for rest os m
      using that r1 [of os "b2 @ b3 @ rest"] r2 [of os "b3 @ rest"]
        r3 [of os rest "filter (\<lambda>(k', v'). \<not> keyEqual k' k) m @ [(k, asDecoded v)]"] hk
      by (simp add: mapassign_def asDecoded_hashable)
    ultimately show "\<exists>bs. writeMap endian buf ((k, v) # kvs) = Ok (buf @ bs) \<and>
       (\<forall>rest os m. os = int (length buf + length bs + length rest) \<longrightarrow>
          readMap endian (length ((k, v) # kvs)) (bs @ rest) os m =
            Ok (assignAll m (asDecodedMap ((k, v) # kvs)), rest))"
      by blast
  qed
qed

lemma roundtrip_decodable:
  assumes "decodable v"
  shows "\<exists>bs. EncodeMessage endian v = Ok bs \<and>
           (\<forall>s. DecodeMessage endian (bs @ s) = Ok (asDecoded v))"
proof -
  from roundtrip_aux(1) [of v endian "[]"] assms obtain bs where
    w: "writeValue endian [] v = Ok bs"
    and r: "\<And>rest os. os = int (length bs + length rest) \<Longrightarrow>
      readValueAligned endian (bs @ rest) os = Ok (asDecoded v, rest)"
    by auto
  from w have "EncodeMessage endian v = Ok bs" by (simp add: EncodeMessage_def)
  moreover have "DecodeMessage endian (bs @ s) = Ok (asDecoded v)" for s
    using r [of "int (length (bs @ s))" s] by (simp add: DecodeMessage_def readValue_def)
  ultimately show ?thesis by blast
qed

subsection \<open>Maps\<close>

text \<open>Keys that \<^verbatim>\<open>==\<close> compares by value and finds equal to themselves.\<close>

definition valueKey :: "Value \<Rightarrow> bool" where
  "valueKey k =
     (case k of
        VNil \<Rightarrow> True
      | VBool a \<Rightarrow> True
      | VInt32 a \<Rightarrow> True
      | VInt64 a \<Rightarrow> True
      | VFloat64 a \<Rightarrow> \<not> isNaN a
      | VString a \<Rightarrow> True
      | _ \<Rightarrow> False)"




lemma valueKey_hashable: "valueKey k \<Longrightarrow> hashable k"
  by (cases k) (auto simp: valueKey_def)






text \<open>No two entries have keys that \<^verbatim>\<open>==\<close> finds equal: what every Go map satisfies.\<close>

fun noEqualKeys :: "(Value \<times> Value) list \<Rightarrow> bool" where
  "noEqualKeys [] = True"
| "noEqualKeys ((k, v) # kvs) = ((\<forall>(k', v') \<in> set kvs. \<not> keyEqual k k') \<and> noEqualKeys kvs)"

lemma noEqualKeys_append:
  "noEqualKeys (xs @ ys) =
     (noEqualKeys xs \<and> noEqualKeys ys \<and>
      (\<forall>(k, v) \<in> set xs. \<forall>(k', v') \<in> set ys. \<not> keyEqual k k'))"
  by (induction xs) (auto, blast+)



lemma assignAll_noEqualKeys: "noEqualKeys (m @ kvs) \<Longrightarrow> assignAll m kvs = m @ kvs"
proof (induction kvs arbitrary: m)
  case Nil
  show ?case by simp
next
  case (Cons p kvs)
  obtain k v where p: "p = (k, v)" by (cases p)
  from Cons.prems p have "filter (\<lambda>(k', v'). \<not> keyEqual k' k) m = m"
    by (auto simp: noEqualKeys_append filter_id_conv)
  moreover from Cons.prems p have "noEqualKeys ((m @ [(k, v)]) @ kvs)" by simp
  ultimately show ?case using Cons.IH [of "m @ [(k, v)]"] p by simp
qed






text \<open>
  \<open>goMaps v\<close>: every map in \<open>v\<close> is one a Go program can hold, with keys that can be
  hashed and are pairwise different under \<^verbatim>\<open>==\<close>.
\<close>

function goMaps :: "Value \<Rightarrow> bool"
  and goMapsList :: "Value list \<Rightarrow> bool"
  and goMapsMap :: "(Value \<times> Value) list \<Rightarrow> bool"
where
  "goMaps (VList vs) = goMapsList vs"
| "goMaps (VMap kvs) = (noEqualKeys kvs \<and> goMapsMap kvs)"
| "goMaps (VOther t) = True"
| "goMaps VNil = True"
| "goMaps (VBool b) = True"
| "goMaps (VInt32 i) = True"
| "goMaps (VInt64 i) = True"
| "goMaps (VBigInt i) = True"
| "goMaps (VFloat64 x) = True"
| "goMaps (VString s) = True"
| "goMaps (VByteSlice bs) = True"
| "goMaps (VInt32Slice ws) = True"
| "goMaps (VInt64Slice ws) = True"
| "goMaps (VFloat64Slice ws) = True"
| "goMapsList [] = True"
| "goMapsList (v # vs) = (goMaps v \<and> goMapsList vs)"
| "goMapsMap [] = True"
| "goMapsMap ((k, v) # kvs) = (hashable k \<and> goMaps v \<and> goMapsMap kvs)"
  by pat_completeness auto

termination goMaps
  by (relation "measure (\<lambda>x. case x of
        Inl v \<Rightarrow> size v
      | Inr (Inl vs) \<Rightarrow> size_list size vs
      | Inr (Inr kvs) \<Rightarrow> size_list (size_prod size size) kvs)") auto

lemma asDecoded_goMaps:
  "goMaps v \<longrightarrow> asDecoded v = v"
  "goMapsList vs \<longrightarrow> asDecodedList vs = vs"
  "goMapsMap kvs \<longrightarrow> asDecodedMap kvs = kvs"
  by (induct v and vs and kvs rule: asDecoded_asDecodedList_asDecodedMap.induct)
     (auto simp: asDecoded_hashable assignAll_noEqualKeys [of "[]", simplified])

text \<open>
  The round trip, for the values whose lengths the size codec reads back: decoding the
  encoding, followed by any bytes, gives the value. The pairs of a map come back in the
  order in which the encoder visited them.
\<close>

lemma roundtrip_in_range:
  assumes "decodable v" "goMaps v"
  shows "\<exists>bs. EncodeMessage endian v = Ok bs \<and> (\<forall>s. DecodeMessage endian (bs @ s) = Ok v)"
  using roundtrip_decodable [OF assms(1), of endian] asDecoded_goMaps(1) [of v] assms(2)
  by simp

section \<open>Decoded values\<close>

text \<open>
  A value is supported when it is of one of the thirteen supported dynamic types, and so
  is every element of a list in it and every key and value of a map in it.
\<close>

function supported :: "Value \<Rightarrow> bool"
  and supportedList :: "Value list \<Rightarrow> bool"
  and supportedMap :: "(Value \<times> Value) list \<Rightarrow> bool"
where
  "supported (VList vs) = supportedList vs"
| "supported (VMap kvs) = supportedMap kvs"
| "supported (VOther t) = False"
| "supported VNil = True"
| "supported (VBool b) = True"
| "supported (VInt32 i) = True"
| "supported (VInt64 i) = True"
| "supported (VBigInt i) = True"
| "supported (VFloat64 x) = True"
| "supported (VString s) = True"
| "supported (VByteSlice bs) = True"
| "supported (VInt32Slice ws) = True"
| "supported (VInt64Slice ws) = True"
| "supported (VFloat64Slice ws) = True"
| "supportedList [] = True"
| "supportedList (v # vs) = (supported v \<and> supportedList vs)"
| "supportedMap [] = True"
| "supportedMap ((k, v) # kvs) = (supported k \<and> supported v \<and> supportedMap kvs)"
  by pat_completeness auto

termination supported
  by (relation "measure (\<lambda>x. case x of
        Inl v \<Rightarrow> size v
      | Inr (Inl vs) \<Rightarrow> size_list size vs
      | Inr (Inr kvs) \<Rightarrow> size_list (size_prod size size) kvs)") auto

lemma supportedList_append [simp]:
  "supportedList (xs @ ys) = (supportedList xs \<and> supportedList ys)"
  by (induction xs) auto

lemma supportedMap_append [simp]:
  "supportedMap (xs @ ys) = (supportedMap xs \<and> supportedMap ys)"
  by (induction xs) auto

lemma supportedMap_filter: "supportedMap m \<Longrightarrow> supportedMap (filter p m)"
  by (induction m) auto

lemma supportedMap_mapassign:
  "supportedMap m \<Longrightarrow> supported k \<Longrightarrow> supported v \<Longrightarrow> mapassign m k v = Ok m1 \<Longrightarrow>
   supportedMap m1"
  by (auto simp: mapassign_def supportedMap_filter split: if_splits)

lemma read_supported:
  "\<forall>v buf'. readValueAligned endian buf0 originalSize = Ok (v, buf') \<longrightarrow> supported v"
  "supportedList list \<longrightarrow>
     (\<forall>vs buf'. readList endian' n buf originalSize' list = Ok (vs, buf') \<longrightarrow> supportedList vs)"
  "supportedMap m \<longrightarrow>
     (\<forall>kvs buf'. readMap endian'' n' buf2 originalSize'' m = Ok (kvs, buf') \<longrightarrow> supportedMap kvs)"
proof (induct rule: readValueAligned_readList_readMap.induct)
  case (1 endian buf0 originalSize)
  show ?case
  proof (intro allI impI)
    fix v buf'
    assume r: "readValueAligned endian buf0 originalSize = Ok (v, buf')"
    show "supported v"
    proof (cases buf0)
      case Nil
      with r show ?thesis by (simp add: readValueAligned_Nil)
    next
      case (Cons t buf)
      show ?thesis
      proof (cases t rule: tag_cases)
        case 13
        with r Cons "1.hyps"(1) [of "(t, buf)" t buf] show ?thesis
          by (fastforce simp: readValueAligned_tag andThen_Ok_iff split: if_splits)
      next
        case 14
        with r Cons "1.hyps"(2) [of "(t, buf)" t buf] show ?thesis
          by (fastforce simp: readValueAligned_tag andThen_Ok_iff split: if_splits)
      qed (use r Cons in \<open>auto simp: readValueAligned_tag readValueAligned_badtag andThen_Ok_iff
             split: if_splits result.splits option.splits\<close>)
    qed
  qed
next
  case (2 endian buf originalSize list)
  then show ?case by simp
next
  case (3 endian n buf originalSize list)
  then show ?case
    by (fastforce simp: andThen_Ok_iff)
next
  case (4 endian buf originalSize m)
  then show ?case by simp
next
  case (5 endian n buf originalSize m)
  show ?case
  proof (intro impI allI)
    fix kvs buf'
    assume m: "supportedMap m"
      and r: "readMap endian (Suc n) buf originalSize m = Ok (kvs, buf')"
    from r obtain key buf1 val buf2 m1 where
      k: "readValueAligned endian buf originalSize = Ok (key, buf1)"
      and v: "readValueAligned endian buf1 originalSize = Ok (val, buf2)"
      and a: "mapassign m key val = Ok m1"
      and l: "readMap endian n buf2 originalSize m1 = Ok (kvs, buf')"
      by (auto simp: andThen_Ok_iff)
    from "5.hyps"(1) k have sk: "supported key" by blast
    from "5.hyps"(2) [OF k refl] v have sv: "supported val" by blast
    from supportedMap_mapassign [OF m sk sv a] have "supportedMap m1" .
    with "5.hyps"(3) [OF k refl v refl a] l show "supportedMap kvs" by blast
  qed
qed

section \<open>What the encoder returns\<close>

text \<open>
  The encoder never panics. It returns bytes for a supported value, of any size, and a
  \<^verbatim>\<open>MessageTypeError\<close> for a value that is, or that holds, a value of another type.
\<close>

lemma encode_outcomes:
  "(supported v \<longrightarrow> (\<exists>bs. writeValue endian buf v = Ok (buf @ bs))) \<and>
   (\<not> supported v \<longrightarrow> (\<exists>t. writeValue endian buf v =
      Err (MessageTypeError (''type '' @ t @ '' is not supported by StandardMessageCodec''))))"
  "(supportedList vs \<longrightarrow> (\<exists>bs. writeList endian' buf' vs = Ok (buf' @ bs))) \<and>
   (\<not> supportedList vs \<longrightarrow> (\<exists>t. writeList endian' buf' vs =
      Err (MessageTypeError (''type '' @ t @ '' is not supported by StandardMessageCodec''))))"
  "(supportedMap kvs \<longrightarrow> (\<exists>bs. writeMap endian'' buf'' kvs = Ok (buf'' @ bs))) \<and>
   (\<not> supportedMap kvs \<longrightarrow> (\<exists>t. writeMap endian'' buf'' kvs =
      Err (MessageTypeError (''type '' @ t @ '' is not supported by StandardMessageCodec''))))"
proof (induct endian buf v and endian' buf' vs and endian'' buf'' kvs
    rule: writeValue_writeList_writeMap.induct)
  case (12 endian buf typedValue)
  from 12 [of "buf @ 12 # sizeBytes endian (int (length typedValue))"] show ?case
    by (auto simp: writeSize_sizeBytes)
next
  case (13 endian buf typedValue)
  from 13 [of "buf @ 13 # sizeBytes endian (int (length typedValue))"] show ?case
    by (auto simp: writeSize_sizeBytes)
next
  case (16 endian buf v vs)
  show ?case
  proof (cases "supported v")
    case True
    with 16(1) obtain b1 where b1: "writeValue endian buf v = Ok (buf @ b1)" by blast
    from 16(2) [of "buf @ b1"] b1 True show ?thesis by auto
  next
    case False
    with 16(1) show ?thesis by auto
  qed
next
  case (18 endian buf k v kvs)
  show ?case
  proof (cases "supported k")
    case True
    with 18(1) obtain b1 where b1: "writeValue endian buf k = Ok (buf @ b1)" by blast
    show ?thesis
    proof (cases "supported v")
      case sv: True
      with 18(2) [of "buf @ b1"] obtain b2 where
        b2: "writeValue endian (buf @ b1) v = Ok ((buf @ b1) @ b2)" by blast
      from 18(3) [of "(buf @ b1) @ b2"] b1 b2 True sv show ?thesis by auto
    next
      case False
      with 18(2) [of "buf @ b1"] b1 True show ?thesis by auto
    qed
  next
    case False
    with 18(1) show ?thesis by auto
  qed
qed (auto simp: writeInt32_def writeInt64_def writeFloat64_def writeAlignment_padding
       writeString_def writeBytes_def writeSize_sizeBytes writeSlice_def)

lemma encode_unsupported:
  "\<not> supported v \<Longrightarrow> \<exists>t. EncodeMessage endian v =
     Err (Wrap (MessageTypeError (''type '' @ t @ '' is not supported by StandardMessageCodec''))
            ''failed to encode message'')"
  using encode_outcomes(1) [of v endian "[]"] by (auto simp: EncodeMessage_def)

lemma encode_supported: "supported v \<Longrightarrow> \<exists>bs. EncodeMessage endian v = Ok bs"
  using encode_outcomes(1) [of v endian "[]"] by (auto simp: EncodeMessage_def)

section \<open>Corrupt input\<close>

text \<open>
  What the decoder can come upon in a corrupt stream: a tag byte outside 0..13, or a
  short read, that is fewer bytes left than the tag byte, a fixed width, the size field
  or the declared size asks for. \<open>encounters endian buf os c\<close> says that the decoder,
  about to read a value from \<open>buf\<close>, comes upon \<open>c\<close>: at this value, or in an element
  of a list or a key or value of a map after it has read the \<open>k\<close> elements or pairs
  before.
\<close>

datatype corruption = UnrecognizedTag | ShortRead

definition sizeTruncated :: "buffer \<Rightarrow> bool" where
  "sizeTruncated buf =
     (buf = [] \<or> (hd buf = 254 \<and> length buf < 3) \<or> (hd buf = 255 \<and> length buf < 5))"

inductive encounters :: "ByteOrder \<Rightarrow> buffer \<Rightarrow> int \<Rightarrow> corruption \<Rightarrow> bool" where
  tag_missing: "encounters endian [] os ShortRead"
| bad_tag:
    "t \<notin> {0, 1, 2, 3, 4, 5, 6, 7, 8, 9, 10, 11, 12, 13} \<Longrightarrow>
     encounters endian (t # buf) os UnrecognizedTag"
| short_int32: "length buf < 4 \<Longrightarrow> encounters endian (3 # buf) os ShortRead"
| short_int64: "length buf < 8 \<Longrightarrow> encounters endian (4 # buf) os ShortRead"
| short_float64:
    "length (readAlignment buf os 8) < 8 \<Longrightarrow> encounters endian (6 # buf) os ShortRead"
| short_size:
    "t \<in> {5, 7, 8, 9, 10, 11, 12, 13} \<Longrightarrow> sizeTruncated buf \<Longrightarrow>
     encounters endian (t # buf) os ShortRead"
| short_bytes:
    "t \<in> {5, 7, 8} \<Longrightarrow> readSize endian buf = Ok (len, buf1) \<Longrightarrow> int (length buf1) < len \<Longrightarrow>
     encounters endian (t # buf) os ShortRead"
| short_slice:
    "(t, w) \<in> {(9, 4), (10, 8), (11, 8)} \<Longrightarrow> readSize endian buf = Ok (len, buf1) \<Longrightarrow>
     int (length (readAlignment buf1 os (int w))) < int w * len \<Longrightarrow>
     encounters endian (t # buf) os ShortRead"
| list_element:
    "readSize endian buf = Ok (len, buf1) \<Longrightarrow> int k < len \<Longrightarrow>
     readList endian k buf1 os [] = Ok (vs, buf2) \<Longrightarrow> encounters endian buf2 os c \<Longrightarrow>
     encounters endian (12 # buf) os c"
| map_key:
    "readSize endian buf = Ok (len, buf1) \<Longrightarrow> int k < len \<Longrightarrow>
     readMap endian k buf1 os [] = Ok (m, buf2) \<Longrightarrow> encounters endian buf2 os c \<Longrightarrow>
     encounters endian (13 # buf) os c"
| map_value:
    "readSize endian buf = Ok (len, buf1) \<Longrightarrow> int k < len \<Longrightarrow>
     readMap endian k buf1 os [] = Ok (m, buf2) \<Longrightarrow>
     readValueAligned endian buf2 os = Ok (key, buf3) \<Longrightarrow> encounters endian buf3 os c \<Longrightarrow>
     encounters endian (13 # buf) os c"

lemma ReadFull_short: "length buf < n \<Longrightarrow> \<exists>err. ReadFull n buf = Err err"
  by (auto simp: ReadFull_def)

lemma readSize_truncated: "sizeTruncated buf \<Longrightarrow> \<exists>err. readSize endian buf = Err err"
proof (cases buf)
  case Nil
  then show ?thesis by (simp add: readSize_def)
next
  case (Cons b buf1)
  assume "sizeTruncated buf"
  with Cons have "(b = 254 \<and> length buf1 < 2) \<or> (b = 255 \<and> length buf1 < 4)"
    by (auto simp: sizeTruncated_def)
  then show ?thesis
    using ReadFull_short [of buf1 2] ReadFull_short [of buf1 4] Cons
    by (auto simp: readSize_def readInt16_def readInt32_def)
qed

lemma readBytes_short:
  "readSize endian buf = Ok (len, buf1) \<Longrightarrow> int (length buf1) < len \<Longrightarrow>
   readBytes endian buf = Err (New ''message corrupted: not enough bytes in buffer'')"
  by (auto simp: readBytes_def Next_def)

lemma readList_stops:
  "k < n \<Longrightarrow> readList endian k buf os acc = Ok (vs, buf2) \<Longrightarrow>
   readValueAligned endian buf2 os = Err err \<Longrightarrow> readList endian n buf os acc = Err err"
proof (induction k arbitrary: n buf acc)
  case 0
  then obtain n' where "n = Suc n'" by (cases n) auto
  with 0 show ?case by simp
next
  case (Suc k)
  then obtain n' where n: "n = Suc n'" "k < n'" by (cases n) auto
  from Suc.prems(2) obtain v b1 where
    v: "readValueAligned endian buf os = Ok (v, b1)"
    and l: "readList endian k b1 os (acc @ [v]) = Ok (vs, buf2)"
    by (auto simp: andThen_Ok_iff)
  from Suc.IH [OF n(2) l Suc.prems(3)] v n show ?case by simp
qed

lemma readMap_stops_key:
  "k < n \<Longrightarrow> readMap endian k buf os m = Ok (m', buf2) \<Longrightarrow>
   readValueAligned endian buf2 os = Err err \<Longrightarrow> readMap endian n buf os m = Err err"
proof (induction k arbitrary: n buf m)
  case 0
  then obtain n' where "n = Suc n'" by (cases n) auto
  with 0 show ?case by simp
next
  case (Suc k)
  then obtain n' where n: "n = Suc n'" "k < n'" by (cases n) auto
  from Suc.prems(2) obtain key b1 v b2 m1 where
    kv: "readValueAligned endian buf os = Ok (key, b1)"
      "readValueAligned endian b1 os = Ok (v, b2)" "mapassign m key v = Ok m1"
    and l: "readMap endian k b2 os m1 = Ok (m', buf2)"
    by (auto simp: andThen_Ok_iff)
  from Suc.IH [OF n(2) l Suc.prems(3)] kv n show ?case by simp
qed

lemma readMap_stops_value:
  "k < n \<Longrightarrow> readMap endian k buf os m = Ok (m', buf2) \<Longrightarrow>
   readValueAligned endian buf2 os = Ok (key, buf3) \<Longrightarrow>
   readValueAligned endian buf3 os = Err err \<Longrightarrow> readMap endian n buf os m = Err err"
proof (induction k arbitrary: n buf m)
  case 0
  then obtain n' where "n = Suc n'" by (cases n) auto
  with 0 show ?case by simp
next
  case (Suc k)
  then obtain n' where n: "n = Suc n'" "k < n'" by (cases n) auto
  from Suc.prems(2) obtain key' b1 v b2 m1 where
    kv: "readValueAligned endian buf os = Ok (key', b1)"
      "readValueAligned endian b1 os = Ok (v, b2)" "mapassign m key' v = Ok m1"
    and l: "readMap endian k b2 os m1 = Ok (m', buf2)"
    by (auto simp: andThen_Ok_iff)
  from Suc.IH [OF n(2) l Suc.prems(3) Suc.prems(4)] kv n show ?case by simp
qed

lemma encounters_Err:
  "encounters endian buf os c \<Longrightarrow> \<exists>err. readValueAligned endian buf os = Err err"
proof (induction rule: encounters.induct)
  case (tag_missing endian os)
  show ?case by (simp add: readValueAligned_Nil)
next
  case (bad_tag t endian buf os)
  then show ?case by (simp add: readValueAligned_badtag)
next
  case (short_int32 buf endian os)
  then show ?case
    using ReadFull_short [of buf 4] by (auto simp: readValueAligned_tag readInt32_def)
next
  case (short_int64 buf endian os)
  then show ?case
    using ReadFull_short [of buf 8] by (auto simp: readValueAligned_tag readInt64_def)
next
  case (short_float64 buf os endian)
  then show ?case
    using ReadFull_short [of "readAlignment buf os 8" 8]
    by (auto simp: readValueAligned_tag readFloat64_def)
next
  case (short_size t buf endian os)
  from readSize_truncated [OF short_size(2), of endian] obtain err where
    "readSize endian buf = Err err" by blast
  with short_size(1) show ?case
    by (auto simp: readValueAligned_tag readBytes_def)
next
  case (short_bytes t endian buf len buf1 os)
  from readBytes_short [OF short_bytes(2,3)] short_bytes(1) show ?case
    by (auto simp: readValueAligned_tag)
next
  case (short_slice t w endian buf len buf1 os)
  have "0 < len"
  proof (rule ccontr)
    assume "\<not> 0 < len"
    then have "int w * len \<le> 0" by (simp add: mult_nonneg_nonpos)
    with short_slice(3) show False by simp
  qed
  then have pos: "0 < len" "\<not> len < 0" by simp_all
  from short_slice(3) pos have "int (length (readAlignment buf1 os (int w))) < int (w * nat len)"
    by simp
  then have "length (readAlignment buf1 os (int w)) < w * nat len"
    by (simp only: of_nat_less_iff)
  from ReadFull_short [OF this] short_slice(1,2) pos show ?case
    by (auto simp: readValueAligned_tag readSlice_def)
next
  case (list_element endian buf len buf1 k os vs buf2 c)
  then obtain err where "readValueAligned endian buf2 os = Err err" by blast
  from readList_stops [OF _ list_element(3) this, of "nat len"] list_element(1,2)
  show ?case by (auto simp: readValueAligned_tag)
next
  case (map_key endian buf len buf1 k os m buf2 c)
  then obtain err where "readValueAligned endian buf2 os = Err err" by blast
  from readMap_stops_key [OF _ map_key(3) this, of "nat len"] map_key(1,2)
  show ?case by (auto simp: readValueAligned_tag)
next
  case (map_value endian buf len buf1 k os m buf2 key buf3 c)
  then obtain err where "readValueAligned endian buf3 os = Err err" by blast
  from readMap_stops_value [OF _ map_value(3,4) this, of "nat len"] map_value(1,2)
  show ?case by (auto simp: readValueAligned_tag)
qed

text \<open>
  When the decoder comes upon an unrecognized tag byte or a short read in this sense,
  \<^verbatim>\<open>DecodeMessage\<close> returns an error, wrapped with the message
  \<open>failed to decode data to message\<close>: no value and no panic. The sizes here are the
  sizes as \<^verbatim>\<open>readSize\<close> returns them; a size field that it reads as a negative number
  is not covered.
\<close>

lemma encounters_is_an_error:
  "encounters endian data (int (length data)) c \<Longrightarrow>
   \<exists>err. DecodeMessage endian data = Err (Wrap err ''failed to decode data to message'')"
  using encounters_Err [of endian data "int (length data)" c]
  by (auto simp: DecodeMessage_def readValue_def)

lemma encounters_is_an_error_example:
  "encounters LittleEndian [255] (int (length [255 :: byte])) UnrecognizedTag \<and>
   (\<exists>err. DecodeMessage LittleEndian [255] =
      Err (Wrap err ''failed to decode data to message'')) \<and>
   encounters LittleEndian [12, 2, 0, 3, 1] (int (length [12, 2, 0, 3, 1 :: byte])) ShortRead \<and>
   (\<exists>err. DecodeMessage LittleEndian [12, 2, 0, 3, 1] =
      Err (Wrap err ''failed to decode data to message''))"
proof -
  have h1: "encounters LittleEndian [255] (int (length [255 :: byte])) UnrecognizedTag"
    by (rule encounters.bad_tag) simp
  have s: "readSize LittleEndian [2, 0, 3, 1] = Ok (2, [0, 3, 1])"
    by (simp add: readSize_def)
  have l: "readList LittleEndian 1 [0, 3, 1] (int (length [12, 2, 0, 3, 1 :: byte])) [] =
      Ok ([VNil], [3, 1])"
    by (simp add: readValueAligned_tag)
  have h2: "encounters LittleEndian [12, 2, 0, 3, 1] (int (length [12, 2, 0, 3, 1 :: byte])) ShortRead"
    by (rule encounters.list_element [OF s _ l]) (simp_all add: encounters.short_int32)
  from encounters_is_an_error [OF h1] encounters_is_an_error [OF h2] h1 h2
  show ?thesis by blast
qed

section \<open>The claims\<close>

text \<open>
  C1. Round trip: for every supported value without duplicate map keys, decoding its
  encoding should give a value equal to it. The code breaks this for a string of 32768
  bytes: the encoder writes the size as byte 254 and the 16-bit pattern 0x8000, the
  decoder reads the size -32768 and panics in \<^verbatim>\<open>buf.Next\<close>. The same happens for
  every length from 32768 to 65535, of a string, a byte buffer, an array, a list or a
  map. For the values all of whose lengths are below 32768, or from 65536 and below
  \<open>2 ^ 31\<close>, the round trip holds (\<open>roundtrip_in_range\<close>).
\<close>

theorem string_roundtrip_panics:
  "andThen (EncodeMessage endian (VString (replicate 32768 0))) (DecodeMessage endian) =
     Panic ''slice bounds out of range''"
  using readSize_signed16 [of 32768 endian]
  by (simp add: EncodeMessage_def writeString_def writeSize_bytes DecodeMessage_def
        readValue_def readValueAligned_tag readBytes_def Next_def)

text \<open>
  C2. Reading back what the size encoder wrote should give the size again, for every
  size from 0 to 65535 in particular. For 32768, which the encoder writes as byte 254
  and the 16-bit pattern 0x8000, the decoder reads the two bytes as a signed
  \<^verbatim>\<open>int16\<close> and returns -32768; so it is for every size from 32768 to 65535
  (\<open>readSize_signed16\<close>). The sizes that are read back are those of
  \<open>readSize_sizeOK\<close>.
\<close>

theorem size_roundtrip_fails_at_32768:
  "andThen (writeSize endian [] 32768) (readSize endian) = Ok (- 32768, [])"
  using readSize_sizeBytes [of 32768 endian "[]"]
  by (simp add: writeSize_bytes sizeBytes_def)

text \<open>
  C3. The size encoder appends one byte, the size itself, for a size below 254; byte 254
  and the size as a 2-byte integer (3 bytes) for a size from 254 to 65535; byte 255 and
  the size as a 4-byte integer (5 bytes) for a larger size. The witness evaluates the
  widths at 253, 254, 255, 65535 and 65536: 1, 3, 3, 3 and 5 bytes.
\<close>

theorem writeSize_width:
  assumes "0 \<le> value"
  shows "\<exists>bs. writeSize endian buf value = Ok (buf @ bs) \<and>
     (value < 254 \<longrightarrow> bs = [of_int value]) \<and>
     (254 \<le> value \<and> value \<le> 65535 \<longrightarrow>
        bs = 254 # put_word endian 2 (of_int value :: 16 word) \<and> length bs = 3) \<and>
     (65535 < value \<longrightarrow>
        bs = 255 # put_word endian 4 (of_int value :: 32 word) \<and> length bs = 5)"
  using assms by (simp add: writeSize_bytes)

theorem writeSize_width_witness:
  "andThen (writeSize LittleEndian [] 253) (\<lambda>bs. Ok (length bs)) = Ok 1 \<and>
   andThen (writeSize LittleEndian [] 254) (\<lambda>bs. Ok (length bs)) = Ok 3 \<and>
   andThen (writeSize LittleEndian [] 255) (\<lambda>bs. Ok (length bs)) = Ok 3 \<and>
   andThen (writeSize LittleEndian [] 65535) (\<lambda>bs. Ok (length bs)) = Ok 3 \<and>
   andThen (writeSize LittleEndian [] 65536) (\<lambda>bs. Ok (length bs)) = Ok 5 \<and>
   andThen (writeSize BigEndian [] 253) (\<lambda>bs. Ok (length bs)) = Ok 1 \<and>
   andThen (writeSize BigEndian [] 254) (\<lambda>bs. Ok (length bs)) = Ok 3 \<and>
   andThen (writeSize BigEndian [] 255) (\<lambda>bs. Ok (length bs)) = Ok 3 \<and>
   andThen (writeSize BigEndian [] 65535) (\<lambda>bs. Ok (length bs)) = Ok 3 \<and>
   andThen (writeSize BigEndian [] 65536) (\<lambda>bs. Ok (length bs)) = Ok 5"
  using writeSize_width [of 253 LittleEndian "[]"] writeSize_width [of 254 LittleEndian "[]"]
    writeSize_width [of 255 LittleEndian "[]"] writeSize_width [of 65535 LittleEndian "[]"]
    writeSize_width [of 65536 LittleEndian "[]"]
    writeSize_width [of 253 BigEndian "[]"] writeSize_width [of 254 BigEndian "[]"]
    writeSize_width [of 255 BigEndian "[]"] writeSize_width [of 65535 BigEndian "[]"]
    writeSize_width [of 65536 BigEndian "[]"]
  by auto

lemma writeList_replicate_VNil:
  "writeList endian buf (replicate n VNil @ vs) = writeList endian (buf @ replicate n 0) vs"
  by (induction n arbitrary: buf) (simp_all add: replicate_app_Cons_same)

text \<open>
  C4. A \<^verbatim>\<open>float64\<close> nested in lists should decode to itself at any depth and byte
  offset. The decoder does take the length of the whole message once, in
  \<^verbatim>\<open>readValue\<close>, and passes it on unchanged (\<open>readList\<close> and \<open>readMap\<close> hand
  \<open>originalSize\<close> to every element), and the padding it skips is the padding the
  encoder wrote (\<open>roundtrip_float64\<close>, at any length of the buffer written so far). But
  in a list of 32767 nils followed by a \<^verbatim>\<open>float64\<close> the list has 32768 elements: the
  decoder reads the count -32768 and panics in \<^verbatim>\<open>make\<close> before it reaches an
  element.
\<close>

theorem nested_float_roundtrip_panics:
  "andThen (EncodeMessage endian (VList (replicate 32767 VNil @ [VFloat64 x])))
     (DecodeMessage endian) = Panic ''makeslice: cap out of range''"
  using readSize_signed16 [of 32768 endian]
  by (simp add: EncodeMessage_def writeSize_bytes writeList_replicate_VNil DecodeMessage_def
        readValue_def readValueAligned_tag writeFloat64_def writeAlignment_padding)

text \<open>
  C5. The big integer 255 is encoded as tag byte 5, size 2 and the text \<open>ff\<close>; the big
  integer -1 as tag byte 5, size 2 and the text \<open>-1\<close>, which begins with a minus sign;
  decoding either encoding gives the integer back.
\<close>

theorem bigint_interop:
  "EncodeMessage endian (VBigInt 255) = Ok (5 # 2 # map of_char ''ff'') \<and>
   EncodeMessage endian (VBigInt (- 1)) = Ok (5 # 2 # map of_char ''-1'') \<and>
   andThen (EncodeMessage endian (VBigInt 255)) (DecodeMessage endian) = Ok (VBigInt 255) \<and>
   andThen (EncodeMessage endian (VBigInt (- 1))) (DecodeMessage endian) = Ok (VBigInt (- 1))"
  by (simp add: EncodeMessage_def DecodeMessage_def readValue_def readValueAligned.simps
        writeString_def writeSize_def readBytes_def readSize_def Next_def SetString16_def
        digitVal_def Text16_255 Text16_m1)





text \<open>
  C7. For a value of an unsupported type \<^verbatim>\<open>EncodeMessage\<close> should return a type
  error. It returns no bytes and does not panic, and \<^verbatim>\<open>writeValue\<close> does make the
  \<^verbatim>\<open>MessageTypeError\<close> that names the type; but \<^verbatim>\<open>EncodeMessage\<close> hands it to
  \<^verbatim>\<open>errors.Wrap\<close>, so what it returns for a 16-bit integer is a wrapped error with the
  message \<open>failed to encode message\<close> and not a \<^verbatim>\<open>MessageTypeError\<close>, for any message.
  The comment in \<^verbatim>\<open>EncodeMessage\<close> says so: \<open>TODO: Should return MessageTypeError when
  that was the cause\<close>. So it is for every unsupported value, nested or not
  (\<open>encode_unsupported\<close>).
\<close>

theorem type_error_is_wrapped:
  "EncodeMessage endian (VOther ''int16'') =
     Err (Wrap (MessageTypeError ''type int16 is not supported by StandardMessageCodec'')
            ''failed to encode message'') \<and>
   (\<forall>msg. EncodeMessage endian (VOther ''int16'') \<noteq> Err (MessageTypeError msg))"
  by (simp add: EncodeMessage_def)

text \<open>
  C8. A stream cut short should give an error, not a crash. The input of tag byte 8
  (byte buffer), byte 254 and the 16-bit pattern 0x8000 declares 32768 bytes and holds
  none of them: the decoder reads the size -32768 and panics in \<^verbatim>\<open>buf.Next\<close>. When
  the size is read as it was written, a short read and an unrecognized tag byte do give
  an error (\<open>encounters_is_an_error\<close>).
\<close>

theorem truncated_bytes_panic:
  "DecodeMessage LittleEndian [8, 254, 0, 128] = Panic ''slice bounds out of range'' \<and>
   DecodeMessage BigEndian [8, 254, 128, 0] = Panic ''slice bounds out of range''"
  by (simp add: DecodeMessage_def readValue_def readValueAligned_tag readBytes_def readSize_def
        readInt16_def ReadFull_def get_word_def Next_def)

text \<open>
  C9. Decoding the encoding of a value followed by any bytes \<open>s\<close> should give the value
  back. For a byte buffer of 32768 bytes the decoder panics, whatever follows. For the
  values all of whose lengths are below 32768, or from 65536 and below \<open>2 ^ 31\<close>, the
  bytes that follow are left alone and the value comes back (\<open>roundtrip_in_range\<close>).
\<close>

theorem trailing_bytes_roundtrip_panics:
  "andThen (EncodeMessage endian (VByteSlice (replicate 32768 0)))
     (\<lambda>bs. DecodeMessage endian (bs @ s)) = Panic ''slice bounds out of range''"
  using readSize_signed16 [of 32768 endian]
  by (simp add: EncodeMessage_def writeBytes_def writeSize_bytes DecodeMessage_def
        readValue_def readValueAligned_tag readBytes_def Next_def)

text \<open>
  C10. Every value a successful \<^verbatim>\<open>DecodeMessage\<close> returns is supported: it and every
  element, key and value nested in it, at any depth, is of one of the thirteen supported
  dynamic types.
\<close>

theorem decoded_values_supported:
  "DecodeMessage endian data = Ok v \<Longrightarrow> supported v"
  using read_supported(1) [of endian data "int (length data)"]
  by (auto simp: DecodeMessage_def readValue_def split: result.splits)

theorem decoded_values_supported_witness:
  "DecodeMessage LittleEndian [12, 2, 7, 1, 97, 13, 1, 0, 3, 42, 0, 0, 0] =
     Ok (VList [VString [97], VMap [(VNil, VInt32 42)]]) \<and>
   supported (VList [VString [97], VMap [(VNil, VInt32 42)]])"
proof -
  have d: "DecodeMessage LittleEndian [12, 2, 7, 1, 97, 13, 1, 0, 3, 42, 0, 0, 0] =
     Ok (VList [VString [97], VMap [(VNil, VInt32 42)]])"
    by code_simp
  from decoded_values_supported [OF d] d show ?thesis by simp
qed

end
